theory Spec2Isabelle
  imports Main "HOL-Library.Sublist"
begin

section \<open>JavaScript strings\<close>

text \<open>
  A JavaScript string is a sequence of UTF-16 code units. The model uses \<open>string\<close>
  (a \<open>char list\<close>), so a \<open>char\<close> stands for a code unit below 256 and every theorem
  below speaks about file contents in that range. The indices of the source
  (\<open>match.index\<close>, \<open>startPos\<close>, \<open>i\<close>) are list positions, line numbers are naturals.
\<close>

definition newline :: char where
  "newline = CHR 0x0A"

text \<open>
  The class \<open>\s\<close> of a regular expression and the characters removed by \<open>trim\<close>,
  \<open>trimStart\<close> are the same set in ECMAScript (white space and line terminators);
  below 256 these are TAB, LF, VT, FF, CR, SP and NBSP.
\<close>

definition isSpace :: "char \<Rightarrow> bool" where
  "isSpace c = (c = CHR 0x09 \<or> c = CHR 0x0A \<or> c = CHR 0x0B \<or> c = CHR 0x0C \<or> c = CHR 0x0D
     \<or> c = CHR 0x20 \<or> c = CHR 0xA0)"

text \<open>Line terminators: what \<open>.\<close> does not match and what \<open>^\<close> (flag \<open>m\<close>) looks back at.\<close>

definition isLineTerminator :: "char \<Rightarrow> bool" where
  "isLineTerminator c = (c = CHR 0x0A \<or> c = CHR 0x0D)"

definition isUpper :: "char \<Rightarrow> bool" where
  "isUpper c = (65 \<le> (of_char c :: nat) \<and> (of_char c :: nat) \<le> 90)"

definition isLower :: "char \<Rightarrow> bool" where
  "isLower c = (97 \<le> (of_char c :: nat) \<and> (of_char c :: nat) \<le> 122)"

definition isDigit :: "char \<Rightarrow> bool" where
  "isDigit c = (48 \<le> (of_char c :: nat) \<and> (of_char c :: nat) \<le> 57)"

text \<open>\<open>[a-zA-Z_]\<close> and \<open>[a-zA-Z0-9_]\<close>.\<close>

definition isIdentStart :: "char \<Rightarrow> bool" where
  "isIdentStart c = (isLower c \<or> isUpper c \<or> c = CHR ''_'')"

definition isWordChar :: "char \<Rightarrow> bool" where
  "isWordChar c = (isLower c \<or> isUpper c \<or> isDigit c \<or> c = CHR ''_'')"

definition anyChar :: "char \<Rightarrow> bool" where
  "anyChar c = True"

definition notLineTerminator :: "char \<Rightarrow> bool" where
  "notLineTerminator c = (\<not> isLineTerminator c)"

definition trimStart :: "string \<Rightarrow> string" where
  "trimStart s = dropWhile isSpace s"

definition trimEnd :: "string \<Rightarrow> string" where
  "trimEnd s = rev (dropWhile isSpace (rev s))"

definition trim :: "string \<Rightarrow> string" where
  "trim s = trimEnd (trimStart s)"

text \<open>\<open>s.includes(sub)\<close>.\<close>

fun includesStr :: "string \<Rightarrow> string \<Rightarrow> bool" where
  "includesStr [] sub = (sub = [])"
| "includesStr (c # cs) sub = (prefix sub (c # cs) \<or> includesStr cs sub)"

text \<open>\<open>s.split('\n')\<close>: never empty, one more element than there are line feeds.\<close>

fun splitNl :: "string \<Rightarrow> string list" where
  "splitNl [] = [[]]"
| "splitNl (c # cs) =
     (if c = newline then [] # splitNl cs
      else (case splitNl cs of [] \<Rightarrow> [[c]] | l # ls \<Rightarrow> (c # l) # ls))"

text \<open>\<open>ls.join('\n')\<close>.\<close>

fun joinNl :: "string list \<Rightarrow> string" where
  "joinNl [] = []"
| "joinNl [l] = l"
| "joinNl (l # l' # ls) = l @ newline # joinNl (l' # ls)"

text \<open>\<open>xs.slice(a, b)\<close> and \<open>xs.slice(a)\<close> for indices that are not negative.\<close>

definition slice :: "'a list \<Rightarrow> nat \<Rightarrow> nat \<Rightarrow> 'a list" where
  "slice xs a b = take (b - a) (drop a xs)"

definition sliceFrom :: "'a list \<Rightarrow> nat \<Rightarrow> 'a list" where
  "sliceFrom xs a = drop a xs"

text \<open>\<open>lines[i] || ''\<close>: an index out of range reads \<open>undefined\<close>, which is falsy.\<close>

definition lineOrEmpty :: "string list \<Rightarrow> nat \<Rightarrow> string" where
  "lineOrEmpty ls i = (if i < length ls then ls ! i else [])"

text \<open>\<open>line.length - line.trimStart().length\<close>, the indentation of a line.\<close>

definition indentOf :: "string \<Rightarrow> nat" where
  "indentOf line = length line - length (trimStart line)"

text \<open>\<open>content.substring(0, idx).split('\n').length\<close>, the 1-based line of position \<open>idx\<close>.\<close>

definition lineNumberAt :: "string \<Rightarrow> nat \<Rightarrow> nat" where
  "lineNumberAt content idx = length (splitNl (take idx content))"

text \<open>
  \<open>s.replace(new RegExp(q, 'g'), '')\<close> for a pattern \<open>q\<close> without special characters
  (the source passes three double quotes or three single quotes): every occurrence of
  \<open>q\<close>, found left to right without overlap, is removed.
\<close>

function removeAll_str :: "string \<Rightarrow> string \<Rightarrow> string" where
  "removeAll_str q [] = []"
| "removeAll_str q (c # cs) =
     (if q \<noteq> [] \<and> prefix q (c # cs) then removeAll_str q (drop (length q) (c # cs))
      else c # removeAll_str q cs)"
  by pat_completeness auto
termination
  by (relation "measure (\<lambda>(q, s). length s)") auto

section \<open>Regular expressions\<close>

text \<open>
  The source finds declarations with regular-expression literals. The fragment of
  ECMAScript regular expressions these literals use is embedded as a datatype, so that
  each literal of the source is written down as it stands, and the backtracking matcher
  is a function on it. Quantifiers occur in the source only on character classes
  (\<open>\s+\<close>, \<open>[a-zA-Z0-9_]*\<close>, \<open>[\s\S]*?\<close>, \<open>.*?\<close>) and as \<open>?\<close> on a group.
\<close>

datatype rx =
    Lit string
  | Cls "char \<Rightarrow> bool"
  | Star "char \<Rightarrow> bool"
  | Plus "char \<Rightarrow> bool"
  | LazyStar "char \<Rightarrow> bool"
  | Opt rx
  | Seq rx rx
  | Alt rx rx
  | Grp nat rx
  | Bol
  | Eoi

text \<open>
  \<open>Lit w\<close> is the text \<open>w\<close>; \<open>Cls P\<close> one character of the class \<open>P\<close>; \<open>Star P\<close>,
  \<open>Plus P\<close> the greedy \<open>P*\<close>, \<open>P+\<close>; \<open>LazyStar P\<close> the lazy \<open>P*?\<close>; \<open>Opt r\<close> the greedy
  \<open>(?:r)?\<close>; \<open>Grp n r\<close> the capture group number \<open>n\<close>; \<open>Bol\<close> is \<open>^\<close> under the flag
  \<open>m\<close>; \<open>Eoi\<close> is \<open>$\<close> without that flag.

  A matcher state is the character before the current position (\<open>None\<close> at position
  0), the text from the current position on, and the captures made so far, latest first.
\<close>

type_synonym mstate = "char option \<times> string \<times> (nat \<times> string) list"

text \<open>
  The greedy and the lazy repetition of a class: every state the repetition can stop in,
  in the order in which backtracking tries them (longest first, shortest first).
\<close>

fun greedy :: "(char \<Rightarrow> bool) \<Rightarrow> mstate \<Rightarrow> mstate list" where
  "greedy P (p, [], caps) = [(p, [], caps)]"
| "greedy P (p, x # xs, caps) =
     (if P x then greedy P (Some x, xs, caps) @ [(p, x # xs, caps)] else [(p, x # xs, caps)])"

fun lazy :: "(char \<Rightarrow> bool) \<Rightarrow> mstate \<Rightarrow> mstate list" where
  "lazy P (p, [], caps) = [(p, [], caps)]"
| "lazy P (p, x # xs, caps) =
     (if P x then (p, x # xs, caps) # lazy P (Some x, xs, caps) else [(p, x # xs, caps)])"

text \<open>
  \<open>ms r st\<close> lists the states in which a match of \<open>r\<close> begun in \<open>st\<close> can end, in the
  priority order of ECMAScript's backtracking: the left alternative before the right
  one, a greedy quantifier's longer matches before its shorter ones. The match the
  engine reports is the first of the list.
\<close>

fun ms :: "rx \<Rightarrow> mstate \<Rightarrow> mstate list" where
  "ms (Lit w) (p, s, caps) =
     (if prefix w s then [(if w = [] then p else Some (last w), drop (length w) s, caps)] else [])"
| "ms (Cls P) (p, s, caps) =
     (case s of [] \<Rightarrow> [] | x # xs \<Rightarrow> (if P x then [(Some x, xs, caps)] else []))"
| "ms (Star P) st = greedy P st"
| "ms (Plus P) (p, s, caps) =
     (case s of [] \<Rightarrow> [] | x # xs \<Rightarrow> (if P x then greedy P (Some x, xs, caps) else []))"
| "ms (LazyStar P) st = lazy P st"
| "ms (Opt r) st = ms r st @ [st]"
| "ms (Seq a b) st = concat (map (ms b) (ms a st))"
| "ms (Alt a b) st = ms a st @ ms b st"
| "ms (Grp n r) (p, s, caps) =
     map (\<lambda>(p', s', caps'). (p', s', (n, take (length s - length s') s) # caps'))
       (ms r (p, s, caps))"
| "ms Bol (p, s, caps) =
     (case p of None \<Rightarrow> [(p, s, caps)]
      | Some x \<Rightarrow> (if isLineTerminator x then [(p, s, caps)] else []))"
| "ms Eoi (p, s, caps) = (if s = [] then [(p, s, caps)] else [])"

text \<open>A sequence of more than two parts.\<close>

fun seqs :: "rx list \<Rightarrow> rx" where
  "seqs [] = Lit []"
| "seqs [r] = r"
| "seqs (r # rs) = Seq r (seqs rs)"

text \<open>
  The match object: \<open>match.index\<close>, the position after the match (what \<open>lastIndex\<close>
  becomes under the flag \<open>g\<close>), \<open>match[0]\<close>, and the captures (\<open>match[n]\<close> is
  \<open>undefined\<close> for a group that took no part).
\<close>

record rmatch =
  m_index :: nat
  m_end :: nat
  m_text :: string
  m_caps :: "(nat \<times> string) list"

definition group :: "rmatch \<Rightarrow> nat \<Rightarrow> string option" where
  "group m n = map_of (m_caps m) n"

definition prevChar :: "string \<Rightarrow> nat \<Rightarrow> char option" where
  "prevChar content i = (if i = 0 \<or> length content < i then None else Some (content ! (i - 1)))"

text \<open>The attempt to match at position \<open>i\<close> exactly.\<close>

definition matchAt :: "rx \<Rightarrow> string \<Rightarrow> nat \<Rightarrow> rmatch option" where
  "matchAt r content i =
     (case ms r (prevChar content i, drop i content, []) of
        [] \<Rightarrow> None
      | (p, s, caps) # _ \<Rightarrow>
          Some \<lparr>m_index = i, m_end = length content - length s,
                m_text = take (length content - length s - i) (drop i content),
                m_caps = caps\<rparr>)"

text \<open>
  \<open>pattern.exec(content)\<close> with \<open>lastIndex = i\<close>, and \<open>content.match(pattern)\<close> for
  \<open>i = 0\<close>: the first position from \<open>i\<close> on at which the pattern matches.
\<close>

function rxExec :: "rx \<Rightarrow> string \<Rightarrow> nat \<Rightarrow> rmatch option" where
  "rxExec r content i =
     (if length content < i then None
      else (case matchAt r content i of
              Some m \<Rightarrow> Some m
            | None \<Rightarrow> rxExec r content (Suc i)))"
  by pat_completeness auto
termination
  by (relation "measure (\<lambda>(r, content, i). Suc (length content) - i)") auto

declare rxExec.simps [simp del]

text \<open>
  Both \<open>while ((match = pattern.exec(content)) !== null)\<close> loops of the source end only
  because their patterns cannot match the empty string: \<open>lastIndex\<close> moves forward
  with every match. \<open>nullable\<close> says when a pattern can match without consuming.
\<close>

fun nullable :: "rx \<Rightarrow> bool" where
  "nullable (Lit w) = (w = [])"
| "nullable (Cls P) = False"
| "nullable (Star P) = True"
| "nullable (Plus P) = False"
| "nullable (LazyStar P) = True"
| "nullable (Opt r) = True"
| "nullable (Seq a b) = (nullable a \<and> nullable b)"
| "nullable (Alt a b) = (nullable a \<or> nullable b)"
| "nullable (Grp n r) = nullable r"
| "nullable Bol = True"
| "nullable Eoi = True"

lemma greedy_suffix:
  "(p', s', c') \<in> set (greedy P (p, s, c)) \<Longrightarrow> suffix s' s"
  by (induction s arbitrary: p) (auto split: if_splits simp: suffix_Cons)

lemma lazy_suffix:
  "(p', s', c') \<in> set (lazy P (p, s, c)) \<Longrightarrow> suffix s' s"
  by (induction s arbitrary: p) (auto split: if_splits simp: suffix_Cons)

lemma ms_suffix:
  "(p', s', c') \<in> set (ms r (p, s, c)) \<Longrightarrow> suffix s' s"
proof (induction r arbitrary: p s c p' s' c')
  case (Lit w)
  then show ?case by (auto split: if_splits simp: suffix_drop)
next
  case (Cls P)
  then show ?case by (auto split: list.splits if_splits simp: suffix_Cons)
next
  case (Star P)
  then show ?case by (auto dest: greedy_suffix)
next
  case (Plus P)
  then show ?case by (auto split: list.splits if_splits simp: suffix_Cons dest: greedy_suffix)
next
  case (LazyStar P)
  then show ?case by (auto dest: lazy_suffix)
next
  case (Opt r)
  then show ?case by auto
next
  case (Seq a b)
  then show ?case by (fastforce intro: suffix_order.trans)
next
  case (Alt a b)
  then show ?case by auto
next
  case (Grp n r)
  then show ?case by auto
next
  case Bol
  then show ?case by (auto split: option.splits if_splits)
next
  case Eoi
  then show ?case by (auto split: if_splits)
qed

lemma ms_progress:
  "(p', s', c') \<in> set (ms r (p, s, c)) \<Longrightarrow> \<not> nullable r \<Longrightarrow> length s' < length s"
proof (induction r arbitrary: p s c p' s' c')
  case (Lit w)
  then show ?case by (auto split: if_splits simp: prefix_def)
next
  case (Cls P)
  then show ?case by (auto split: list.splits if_splits)
next
  case (Plus P)
  then show ?case by (auto split: list.splits if_splits dest!: greedy_suffix suffix_length_le)
next
  case (Seq a b)
  from Seq.prems obtain p1 s1 c1 where
    a: "(p1, s1, c1) \<in> set (ms a (p, s, c))" and b: "(p', s', c') \<in> set (ms b (p1, s1, c1))"
    by auto
  from a have "length s1 \<le> length s" by (auto dest!: ms_suffix suffix_length_le)
  moreover from b have "length s' \<le> length s1" by (auto dest!: ms_suffix suffix_length_le)
  moreover have "\<not> nullable a \<or> \<not> nullable b" using Seq.prems by simp
  ultimately show ?case using Seq.IH(1)[OF a] Seq.IH(2)[OF b] by fastforce
next
  case (Alt a b)
  then show ?case by auto
next
  case (Grp n r)
  then show ?case by auto
qed auto

lemma matchAt_bounds:
  assumes "matchAt r content i = Some m" and "i \<le> length content"
  shows "m_index m = i \<and> i \<le> m_end m \<and> m_end m \<le> length content
         \<and> (\<not> nullable r \<longrightarrow> i < m_end m)"
proof -
  from assms(1) obtain p s caps rest where
    ms: "ms r (prevChar content i, drop i content, []) = (p, s, caps) # rest"
    and m: "m = \<lparr>m_index = i, m_end = length content - length s,
                 m_text = take (length content - length s - i) (drop i content),
                 m_caps = caps\<rparr>"
    by (auto simp: matchAt_def split: list.splits)
  from ms have mem: "(p, s, caps) \<in> set (ms r (prevChar content i, drop i content, []))"
    by simp
  from ms_suffix[OF mem] have le: "length s \<le> length content - i"
    by (auto dest: suffix_length_le)
  have "\<not> nullable r \<Longrightarrow> length s < length content - i"
    using ms_progress[OF mem] by simp
  with le m assms(2) show ?thesis by auto
qed

lemma rxExec_bounds:
  "rxExec r content i = Some m \<Longrightarrow>
     i \<le> m_index m \<and> m_index m \<le> m_end m \<and> m_end m \<le> length content
     \<and> (\<not> nullable r \<longrightarrow> m_index m < m_end m)"
proof (induction r content i rule: rxExec.induct)
  case (1 r content i)
  show ?case
  proof (cases "length content < i")
    case True
    with "1.prems" show ?thesis by (simp add: rxExec.simps)
  next
    case False
    show ?thesis
    proof (cases "matchAt r content i")
      case None
      with False "1.prems" have "rxExec r content (Suc i) = Some m"
        by (simp add: rxExec.simps[of r content i])
      with "1.IH"[OF False None] show ?thesis by auto
    next
      case (Some m')
      with False "1.prems" have "m' = m"
        by (simp add: rxExec.simps[of r content i])
      with Some False matchAt_bounds[of r content i m] show ?thesis by auto
    qed
  qed
qed

section \<open>The chunk\<close>

datatype language = Python | Javascript | Typescript | Jsx | Tsx

datatype chunkType = Function | Class | Method | ArrowFunction | Other

record chunk =
  filePath :: string
  language :: language
  chunkType :: chunkType
  name :: string
  startLine :: nat
  endLine :: nat
  docString :: "string option"
  code :: string

text \<open>What both block finders return: \<open>{endLine, blockCode, docstring}\<close>.\<close>

record block =
  b_endLine :: nat
  b_blockCode :: string
  b_docstring :: "string option"

section \<open>The Python extractor\<close>

text \<open>\<open>/^(async\s+def|def|class)\s+([a-zA-Z_][a-zA-Z0-9_]*)/gm\<close>\<close>

definition pythonPattern :: rx where
  "pythonPattern = seqs [Bol,
     Grp 1 (Alt (seqs [Lit ''async'', Plus isSpace, Lit ''def''])
                (Alt (Lit ''def'') (Lit ''class''))),
     Plus isSpace,
     Grp 2 (Seq (Cls isIdentStart) (Star isWordChar))]"

definition singleQuote :: char where
  "singleQuote = CHR 0x27"

text \<open>
  The loop of \<open>_findPythonBlockEnd\<close> that looks for the line holding the docstring's
  closing quotes: from line index \<open>i\<close> on, the first line that includes \<open>quoteChar\<close>.
\<close>

function findQuoteLine :: "string list \<Rightarrow> string \<Rightarrow> nat \<Rightarrow> nat option" where
  "findQuoteLine lines quoteChar i =
     (if i < length lines then
        (if includesStr (lines ! i) quoteChar then Some i
         else findQuoteLine lines quoteChar (Suc i))
      else None)"
  by pat_completeness auto
termination
  by (relation "measure (\<lambda>(lines, quoteChar, i). length lines - i)") auto

declare findQuoteLine.simps [simp del]

text \<open>
  The loop of \<open>_findPythonBlockEnd\<close> that finds the end of the block: \<open>i\<close> is the line
  index, \<open>endLn\<close> the value of the variable \<open>endLine\<close> so far.
\<close>

function pyEndLoop :: "string list \<Rightarrow> nat \<Rightarrow> nat \<Rightarrow> nat \<Rightarrow> nat" where
  "pyEndLoop lines initialIndent i endLn =
     (if i < length lines then
        (if lines ! i = [] \<or> trim (lines ! i) = [] then
           pyEndLoop lines initialIndent (Suc i) endLn
         else if indentOf (lines ! i) \<le> initialIndent then endLn
         else pyEndLoop lines initialIndent (Suc i) (i + 1))
      else endLn)"
  by pat_completeness auto
termination
  by (relation "measure (\<lambda>(lines, initialIndent, i, endLn). length lines - i)") auto

declare pyEndLoop.simps [simp del]

text \<open>
  \<open>_findPythonBlockEnd(lines, startLine)\<close>. The source calls it with the line number of
  a match, which is at least 1.
\<close>

definition findPythonBlockEnd :: "string list \<Rightarrow> nat \<Rightarrow> block" where
  \<open>findPythonBlockEnd lines startLn =
     (let startLineIndex = startLn - 1;
          initialIndent =
            (if startLineIndex < length lines
             then length (takeWhile isSpace (lines ! startLineIndex)) else 0);
          firstLineAfterDef =
            (if startLineIndex + 1 < length lines
             then trim (lines ! (startLineIndex + 1)) else []);
          docstring =
            (if prefix ''"""'' firstLineAfterDef
                \<or> prefix [singleQuote, singleQuote, singleQuote] firstLineAfterDef
             then
               (let quoteChar = take 3 firstLineAfterDef in
                case findQuoteLine lines quoteChar (startLineIndex + 1) of
                  Some docstringEndLine \<Rightarrow>
                    Some (trim (removeAll_str quoteChar
                      (joinNl (slice lines (startLineIndex + 1) (docstringEndLine + 1)))))
                | None \<Rightarrow> None)
             else None);
          endLn = pyEndLoop lines initialIndent (startLineIndex + 1) startLn
      in \<lparr>b_endLine = endLn,
          b_blockCode = joinNl (slice lines startLineIndex endLn),
          b_docstring = docstring\<rparr>)\<close>

text \<open>
  The backward loop of \<open>_isPythonMethod\<close>: \<open>methodLoop lines indent n\<close> runs
  \<open>i = n - 1, ..., 0\<close>.
\<close>

fun methodLoop :: "string list \<Rightarrow> nat \<Rightarrow> nat \<Rightarrow> bool" where
  "methodLoop lines indent 0 = False"
| "methodLoop lines indent (Suc i) =
     (let prevLine = lineOrEmpty lines i; prevIndent = indentOf prevLine in
      if prefix ''class '' (trim prevLine) \<and> prevIndent < indent then True
      else if prevIndent < indent then False
      else methodLoop lines indent i)"

definition isPythonMethod :: "string list \<Rightarrow> nat \<Rightarrow> bool" where
  "isPythonMethod lines startLineIndex =
     (if startLineIndex = 0 then False
      else (let line = lineOrEmpty lines startLineIndex; indent = indentOf line in
            if indent = 0 then False else methodLoop lines indent startLineIndex))"

text \<open>The body of the \<open>while\<close> loop of \<open>_parsePython\<close>: the chunk of one match.\<close>

definition pythonChunk :: "string \<Rightarrow> string \<Rightarrow> string list \<Rightarrow> rmatch \<Rightarrow> chunk" where
  "pythonChunk content path lines m =
     (let typeKeyword = group m 1;
          nm = (case group m 2 of None \<Rightarrow> ''unknown''
                | Some n \<Rightarrow> (if n = [] then ''unknown'' else n));
          sl = lineNumberAt content (m_index m);
          b = findPythonBlockEnd lines sl;
          isMethod = isPythonMethod lines (sl - 1);
          ct = (if typeKeyword = Some ''class'' then Class
                else if isMethod then Method else Function)
      in \<lparr>filePath = path, language = Python, chunkType = ct, name = nm,
          startLine = sl, endLine = b_endLine b, docString = b_docstring b,
          code = b_blockCode b\<rparr>)"

lemma pythonPattern_not_nullable: "\<not> nullable pythonPattern"
  by (simp add: pythonPattern_def)

text \<open>
  The \<open>while ((match = pattern.exec(content)) !== null)\<close> loop of \<open>_parsePython\<close>: the
  matches it goes through, in order, each search starting where the last match ended.
  The loop body changes nothing the next search reads, so the chunks are the images of
  the matches.
\<close>

function pythonMatches :: "string \<Rightarrow> nat \<Rightarrow> rmatch list" where
  "pythonMatches content lastIndex =
     (case rxExec pythonPattern content lastIndex of
        None \<Rightarrow> []
      | Some m \<Rightarrow> m # pythonMatches content (m_end m))"
  by pat_completeness auto
termination
proof (relation "measure (\<lambda>(content, lastIndex). length content - lastIndex)")
  show "wf (measure (\<lambda>(content, lastIndex). length content - lastIndex))"
    by simp
next
  fix content :: string and lastIndex :: nat and m :: rmatch
  assume "rxExec pythonPattern content lastIndex = Some m"
  from rxExec_bounds[OF this] pythonPattern_not_nullable
  show "((content, m_end m), (content, lastIndex))
        \<in> measure (\<lambda>(content, lastIndex). length content - lastIndex)"
    by auto
qed

declare pythonMatches.simps [simp del]

definition parsePython :: "string \<Rightarrow> string \<Rightarrow> chunk list" where
  "parsePython content path =
     map (pythonChunk content path (splitNl content)) (pythonMatches content 0)"

section \<open>The JavaScript/TypeScript extractor\<close>

text \<open>
  The pattern of \<open>_parseJavaScriptTypeScript\<close> (flag \<open>g\<close>), its two alternatives:

  \<^verbatim>\<open>(?:\/\*\*[\s\S]*?\*\/[\s\n]*)?(?:export\s+)?(async\s+)?(function\*?|class)\s+([a-zA-Z0-9_]+)\<close>

  \<^verbatim>\<open>(?:export\s+)?(const|let|var)\s+([a-zA-Z0-9_]+)\s*=\s*(?:async)?\s*\(.*?\)\s*=>\<close>
\<close>

definition jsDeclPattern :: rx where
  "jsDeclPattern = seqs [
     Opt (seqs [Lit ''/**'', LazyStar anyChar, Lit ''*/'', Star isSpace]),
     Opt (seqs [Lit ''export'', Plus isSpace]),
     Opt (Grp 1 (seqs [Lit ''async'', Plus isSpace])),
     Grp 2 (Alt (seqs [Lit ''function'', Opt (Lit ''*'')]) (Lit ''class'')),
     Plus isSpace,
     Grp 3 (Plus isWordChar)]"

definition jsArrowPattern :: rx where
  "jsArrowPattern = seqs [
     Opt (seqs [Lit ''export'', Plus isSpace]),
     Grp 4 (Alt (Lit ''const'') (Alt (Lit ''let'') (Lit ''var''))),
     Plus isSpace,
     Grp 5 (Plus isWordChar),
     Star isSpace, Lit ''='', Star isSpace,
     Opt (Lit ''async''),
     Star isSpace,
     Lit ''('', LazyStar notLineTerminator, Lit '')'',
     Star isSpace, Lit ''=>'']"

definition jsPattern :: rx where
  "jsPattern = Alt jsDeclPattern jsArrowPattern"

text \<open>\<open>/\/\*\*([\s\S]*?)\*\/$/\<close>, matched against the text before the declaration.\<close>

definition docPattern :: rx where
  "docPattern = seqs [Lit ''/**'', Grp 1 (LazyStar anyChar), Lit ''*/'', Eoi]"

text \<open>\<open>line.replace(/^\* ?/, '')\<close>: a leading star and one space after it, if there.\<close>

definition deStar :: "string \<Rightarrow> string" where
  "deStar line =
     (case line of
        [] \<Rightarrow> []
      | c # cs \<Rightarrow>
          (if c = CHR ''*'' then
             (case cs of [] \<Rightarrow> [] | d # ds \<Rightarrow> (if d = CHR '' '' then ds else cs))
           else line))"

text \<open>The documentation part of \<open>_findJSBlockEnd\<close>.\<close>

definition jsDocstring :: "string \<Rightarrow> nat \<Rightarrow> string option" where
  "jsDocstring content startPos =
     (case rxExec docPattern (take startPos content) 0 of
        None \<Rightarrow> None
      | Some docMatch \<Rightarrow>
          (case group docMatch 1 of
             None \<Rightarrow> None
           | Some interior \<Rightarrow>
               Some (trim (joinNl (map (\<lambda>line. deStar (trim line)) (splitNl interior))))))"

text \<open>The variables of the brace scan of \<open>_findJSBlockEnd\<close>.\<close>

record scan =
  openBraces :: int
  inString :: "char option"
  escape :: bool
  firstBraceFound :: bool

definition backslash :: char where
  "backslash = CHR 0x5C"

definition doubleQuote :: char where
  "doubleQuote = CHR 0x22"

definition backtick :: char where
  "backtick = CHR 0x60"

text \<open>The body of the \<open>for\<close> loop up to the test of the depth, for the character \<open>ch\<close>.\<close>

definition scanStep :: "char \<Rightarrow> scan \<Rightarrow> scan" where
  "scanStep ch st =
     (case inString st of
        Some q \<Rightarrow>
          (if ch = q \<and> \<not> escape st then st\<lparr>inString := None\<rparr>
           else st\<lparr>escape := (ch = backslash \<and> \<not> escape st)\<rparr>)
      | None \<Rightarrow>
          (if ch = doubleQuote \<or> ch = singleQuote \<or> ch = backtick
           then st\<lparr>inString := Some ch, escape := False\<rparr>
           else if ch = CHR ''{''
           then st\<lparr>openBraces := openBraces st + 1, firstBraceFound := True\<rparr>
           else if ch = CHR ''}'' then st\<lparr>openBraces := openBraces st - 1\<rparr>
           else st))"

text \<open>\<open>while (i < content.length && content[i] !== '{') i++\<close>\<close>

function findOpenBrace :: "string \<Rightarrow> nat \<Rightarrow> nat" where
  "findOpenBrace content i =
     (if i < length content \<and> content ! i \<noteq> CHR ''{'' then findOpenBrace content (Suc i)
      else i)"
  by pat_completeness auto
termination
  by (relation "measure (\<lambda>(content, i). length content - i)") auto

declare findOpenBrace.simps [simp del]

text \<open>
  The \<open>for\<close> loop: the position of the character at which the loop returns, or \<open>None\<close>
  when it runs to the end of the content.
\<close>

function scanLoop :: "string \<Rightarrow> nat \<Rightarrow> scan \<Rightarrow> nat option" where
  "scanLoop content i st =
     (if i < length content then
        (let st' = scanStep (content ! i) st in
         if firstBraceFound st' \<and> openBraces st' = 0 then Some i
         else scanLoop content (Suc i) st')
      else None)"
  by pat_completeness auto
termination
  by (relation "measure (\<lambda>(content, i, st). length content - i)") auto

declare scanLoop.simps [simp del]

definition scanInit :: scan where
  "scanInit = \<lparr>openBraces = 0, inString = None, escape = False, firstBraceFound = False\<rparr>"

definition findJSBlockEnd :: "string \<Rightarrow> nat \<Rightarrow> string list \<Rightarrow> block" where
  "findJSBlockEnd content startPos lines =
     (let docstring = jsDocstring content startPos;
          i = findOpenBrace content startPos;
          codeBlockStartLineIndex =
            (if i < length content then lineNumberAt content i - 1
             else lineNumberAt content startPos - 1)
      in case scanLoop content i scanInit of
           Some j \<Rightarrow>
             (let endLn = lineNumberAt content (j + 1) in
              \<lparr>b_endLine = endLn,
               b_blockCode = joinNl (slice lines codeBlockStartLineIndex endLn),
               b_docstring = docstring\<rparr>)
         | None \<Rightarrow>
             \<lparr>b_endLine = length lines,
              b_blockCode = joinNl (sliceFrom lines codeBlockStartLineIndex),
              b_docstring = docstring\<rparr>)"

text \<open>
  The body of the \<open>while\<close> loop of \<open>_parseJavaScriptTypeScript\<close>. \<open>a || b\<close> on strings
  takes \<open>b\<close> when \<open>a\<close> is \<open>undefined\<close> or empty.
\<close>

definition orElse :: "string option \<Rightarrow> string \<Rightarrow> string" where
  "orElse a b = (case a of None \<Rightarrow> b | Some x \<Rightarrow> (if x = [] then b else x))"

definition jsChunk :: "string \<Rightarrow> string \<Rightarrow> language \<Rightarrow> string list \<Rightarrow> rmatch \<Rightarrow> chunk" where
  "jsChunk content path lang lines m =
     (let startPos = m_index m;
          sl = lineNumberAt content startPos;
          b = findJSBlockEnd content startPos lines;
          nm = orElse (group m 3) (orElse (group m 5) ''unknown'');
          ct = (if group m 2 = Some ''class'' then Class
                else if (case group m 2 of None \<Rightarrow> False
                         | Some k \<Rightarrow> includesStr k ''function'') then Function
                else if includesStr (m_text m) ''=>'' then ArrowFunction
                else Other)
      in \<lparr>filePath = path, language = lang, chunkType = ct, name = nm,
          startLine = sl, endLine = b_endLine b, docString = b_docstring b,
          code = b_blockCode b\<rparr>)"

lemma jsPattern_not_nullable: "\<not> nullable jsPattern"
  by (simp add: jsPattern_def jsDeclPattern_def jsArrowPattern_def)

text \<open>The matches the \<open>while\<close> loop of \<open>_parseJavaScriptTypeScript\<close> goes through.\<close>

function jsMatches :: "string \<Rightarrow> nat \<Rightarrow> rmatch list" where
  "jsMatches content lastIndex =
     (case rxExec jsPattern content lastIndex of
        None \<Rightarrow> []
      | Some m \<Rightarrow> m # jsMatches content (m_end m))"
  by pat_completeness auto
termination
proof (relation "measure (\<lambda>(content, lastIndex). length content - lastIndex)")
  show "wf (measure (\<lambda>(content, lastIndex). length content - lastIndex))"
    by simp
next
  fix content :: string and lastIndex :: nat and m :: rmatch
  assume "rxExec jsPattern content lastIndex = Some m"
  from rxExec_bounds[OF this] jsPattern_not_nullable
  show "((content, m_end m), (content, lastIndex))
        \<in> measure (\<lambda>(content, lastIndex). length content - lastIndex)"
    by auto
qed

declare jsMatches.simps [simp del]

definition parseJavaScriptTypeScript :: "string \<Rightarrow> string \<Rightarrow> language \<Rightarrow> chunk list" where
  "parseJavaScriptTypeScript content path lang =
     map (jsChunk content path lang (splitNl content)) (jsMatches content 0)"

section \<open>The directory parser\<close>

text \<open>
  The file system as \<open>parseDirectory\<close> sees it. A node is what \<open>stat\<close> and the read
  that follows it give: a file with the result of \<open>readFile\<close> (the content, or on the left
  the error it throws, as \<open>${e}\<close> prints it), a directory with the entries \<open>readdir\<close>
  lists, a directory \<open>readdir\<close> fails on, or a name \<open>stat\<close> fails on. The root is given
  by what \<open>readdir\<close> gives for it: the error it throws (the path is no directory, does
  not exist, cannot be read) or its entries.
\<close>

datatype fsNode =
    File "string + string"
  | Directory "(string \<times> fsNode) list"
  | UnreadableDirectory string
  | Unstatable string

type_synonym listing = "string + (string \<times> fsNode) list"

type_synonym fileList = "(string \<times> (string + string)) list"

text \<open>
  \<open>getAllFiles\<close>: \<open>getAllFilesLoop\<close> is its \<open>for\<close> loop over the entries of \<open>dirPath\<close>,
  with the array \<open>arrayOfFiles\<close> the calls share; each file is listed with what reading
  it will give. \<open>path.join\<close> is a function of the Node library and is taken as the
  parameter \<open>join\<close>.
\<close>

fun getAllFilesLoop ::
  "(string \<Rightarrow> string \<Rightarrow> string) \<Rightarrow> string \<Rightarrow> (string \<times> fsNode) list \<Rightarrow> fileList
     \<Rightarrow> string + fileList" where
  "getAllFilesLoop join dirPath [] arrayOfFiles = Inr arrayOfFiles"
| "getAllFilesLoop join dirPath ((file, node) # rest) arrayOfFiles =
     (case node of
        Unstatable e \<Rightarrow> Inl e
      | UnreadableDirectory e \<Rightarrow> Inl e
      | Directory entries \<Rightarrow>
          (case getAllFilesLoop join (join dirPath file) entries arrayOfFiles of
             Inl e \<Rightarrow> Inl e
           | Inr arrayOfFiles' \<Rightarrow> getAllFilesLoop join dirPath rest arrayOfFiles')
      | File r \<Rightarrow> getAllFilesLoop join dirPath rest (arrayOfFiles @ [(join dirPath file, r)]))"

definition getAllFiles ::
  "(string \<Rightarrow> string \<Rightarrow> string) \<Rightarrow> string \<Rightarrow> listing \<Rightarrow> string + fileList" where
  "getAllFiles join dirPath root =
     (case root of
        Inl e \<Rightarrow> Inl e
      | Inr entries \<Rightarrow> getAllFilesLoop join dirPath entries [])"

definition SUPPORTED_EXTENSIONS :: "string \<Rightarrow> language option" where
  "SUPPORTED_EXTENSIONS = map_of
     [(''.py'', Python), (''.js'', Javascript), (''.ts'', Typescript),
      (''.jsx'', Jsx), (''.tsx'', Tsx)]"

text \<open>
  The \<open>for\<close> loop of \<open>parseDirectory\<close>. \<open>path.extname\<close> is a function of the Node
  library and is taken as the parameter \<open>extname\<close>. Neither extractor can throw, so
  the \<open>catch\<close> is reached by a failing \<open>readFile\<close> only.
\<close>

fun parseFiles :: "(string \<Rightarrow> string) \<Rightarrow> fileList \<Rightarrow> chunk list \<Rightarrow> string + chunk list" where
  "parseFiles extname [] allChunks = Inr allChunks"
| "parseFiles extname ((path, readResult) # rest) allChunks =
     (case SUPPORTED_EXTENSIONS (extname path) of
        None \<Rightarrow> parseFiles extname rest allChunks
      | Some lang \<Rightarrow>
          (case readResult of
             Inl e \<Rightarrow> Inl (''Failed to read or parse file '' @ path @ '': '' @ e)
           | Inr content \<Rightarrow>
               parseFiles extname rest
                 (allChunks @ (if lang = Python then parsePython content path
                               else parseJavaScriptTypeScript content path lang))))"

definition parseDirectory ::
  "(string \<Rightarrow> string) \<Rightarrow> (string \<Rightarrow> string \<Rightarrow> string) \<Rightarrow> string \<Rightarrow> listing
     \<Rightarrow> string + chunk list" where
  "parseDirectory extname join directory root =
     (case getAllFiles join directory root of
        Inl e \<Rightarrow> Inl e
      | Inr files \<Rightarrow> parseFiles extname files [])"

section \<open>Notions used to state the properties\<close>

text \<open>The capture groups of a pattern.\<close>

fun groups :: "rx \<Rightarrow> nat set" where
  "groups (Grp n r) = insert n (groups r)"
| "groups (Opt r) = groups r"
| "groups (Seq a b) = groups a \<union> groups b"
| "groups (Alt a b) = groups a \<union> groups b"
| "groups r = {}"


text \<open>
  An identifier: a letter or an underscore, then letters, digits and underscores.
\<close>

definition isIdentifier :: "string \<Rightarrow> bool" where
  "isIdentifier s = (s \<noteq> [] \<and> isIdentStart (hd s) \<and> list_all isWordChar s)"

text \<open>A blank line, as the loop of \<open>_findPythonBlockEnd\<close> tests it.\<close>

definition blank :: "string \<Rightarrow> bool" where
  "blank line = (line = [] \<or> trim line = [])"

text \<open>
  The end line of a Python block as claim C6 words it, not as the source computes it:
  the last line before the first non-blank line after the declaration whose
  indentation is at or below the declaration's own, or the last line of the file when
  there is no such line. \<open>dedentFrom ind i ls\<close> looks through the lines \<open>ls\<close>, the first
  of which has index \<open>i\<close>; a line of index \<open>j\<close> is line \<open>j + 1\<close>, so the line before it is
  line \<open>j\<close>.
\<close>

fun dedentFrom :: "nat \<Rightarrow> nat \<Rightarrow> string list \<Rightarrow> nat option" where
  "dedentFrom ind i [] = None"
| "dedentFrom ind i (l # ls) =
     (if \<not> blank l \<and> indentOf l \<le> ind then Some i else dedentFrom ind (Suc i) ls)"

definition claimedEndLine :: "string list \<Rightarrow> nat \<Rightarrow> nat" where
  "claimedEndLine lines startLn =
     (case dedentFrom (indentOf (lineOrEmpty lines (startLn - 1))) startLn (drop startLn lines) of
        Some j \<Rightarrow> j
      | None \<Rightarrow> length lines)"

section \<open>Sample inputs\<close>

text \<open>
  For the samples, \<open>path.extname\<close> as Node computes it on POSIX paths: slashes at the end
  are dropped, the last part of the path is taken, and the extension runs from its last
  dot to its end; it is empty when that part has no dot, starts with its only dot, or
  is \<open>..\<close>.
\<close>

definition sampleExtname :: "string \<Rightarrow> string" where
  "sampleExtname p =
     (let base = rev (takeWhile (\<lambda>c. c \<noteq> CHR ''/'') (dropWhile (\<lambda>c. c = CHR ''/'') (rev p)));
          ext = rev (takeWhile (\<lambda>c. c \<noteq> CHR ''.'') (rev base))
      in if CHR ''.'' \<notin> set base then []
         else if length base = Suc (length ext) then []
         else if base = ''..'' then []
         else CHR ''.'' # ext)"

text \<open>
  For the samples, \<open>path.join\<close> on a normalised directory path that does not end with a
  slash and a plain entry name.
\<close>

definition sampleJoin :: "string \<Rightarrow> string \<Rightarrow> string" where
  "sampleJoin dirPath file = dirPath @ ''/'' @ file"





definition tree1 :: listing where
  "tree1 = Inr
     [(''a.py'', File (Inr ''def f():\<newline>  pass'')),
      (''b.py'', File (Inl ''Error: EACCES: permission denied'')),
      (''c.py'', File (Inl ''Error: EISDIR''))]"

definition files1 :: fileList where
  "files1 =
     [(''root/a.py'', Inr ''def f():\<newline>  pass''),
      (''root/b.py'', Inl ''Error: EACCES: permission denied''),
      (''root/c.py'', Inl ''Error: EISDIR'')]"






definition matchAllman :: rmatch where
  "matchAllman = \<lparr>m_index = 0, m_end = 10, m_text = ''function f'',
     m_caps = [(3, ''f''), (2, ''function'')]\<rparr>"

text \<open>A Python function followed by a blank line and a statement at column 0.\<close>

definition pyDedentSample :: string where
  "pyDedentSample = ''def f():\<newline>    pass\<newline>\<newline>x = 1''"

text \<open>A function whose body ends inside a string that is never closed.\<close>

definition openStringSample :: string where
  \<open>openStringSample = ''function f() {\<newline>  return "}''\<close>

text \<open>Declarations for the names: an \<open>async def\<close> and an exported arrow function.\<close>

definition pyNameSample :: string where
  "pyNameSample = ''async def fetch_all(x):\<newline>  pass''"

definition pyNameMatch :: rmatch where
  "pyNameMatch = \<lparr>m_index = 0, m_end = 19, m_text = ''async def fetch_all'',
     m_caps = [(2, ''fetch_all''), (1, ''async def'')]\<rparr>"

definition jsNameSample :: string where
  "jsNameSample = ''export const unknown = async (a) => a''"

definition jsNameMatch :: rmatch where
  "jsNameMatch = \<lparr>m_index = 0, m_end = 35, m_text = ''export const unknown = async (a) =>'',
     m_caps = [(5, ''unknown''), (4, ''const'')]\<rparr>"

text \<open>
  The JSDoc of the repository's own test \<open>JavaScript parser - JSDoc extraction\<close>,
  shortened, and the same comment with nothing between it and the keyword.
\<close>

definition jsdocSample :: string where
  "jsdocSample = ''/**\<newline> * Adds two numbers\<newline> * @returns {number} Sum\<newline> */\<newline>function add(a, b) {\<newline>    return a + b;\<newline>}''"

definition jsdocTightSample :: string where
  "jsdocTightSample = ''/** Adds two numbers */function add(a, b) { return a + b; }''"

text \<open>
  The docstring over two lines of the repository's test
  \<open>Python parser - docstring extraction\<close>, and a docstring that is never closed.
\<close>

definition docstringSample :: string where
  \<open>docstringSample = ''def with_docstring():\<newline>    """This is a docstring\<newline>    with multiple lines."""\<newline>    pass''\<close>

definition openDocstringSample :: string where
  \<open>openDocstringSample = ''def g():\<newline>    """never closed\<newline>    return 1''\<close>

text \<open>
  A method in a class, and Scenario A of the spec: a class with a docstring and one
  method, and one top-level function.
\<close>

definition methodSample :: string where
  "methodSample = ''class A:\<newline>    def f(self):\<newline>        pass''"

definition scenarioA :: string where
  \<open>scenarioA = ''class C:\<newline>    """Doc."""\<newline>    def m(self):\<newline>        pass\<newline>\<newline>def top():\<newline>    return True''\<close>

text \<open>
  An arrow function without braces followed by a function with a body and one more
  line, and the content of the repository's test
  \<open>JavaScript parser - arrow function variations\<close>.
\<close>

definition oneLinerSample :: string where
  "oneLinerSample = ''const simple = () => true;\<newline>function g() {\<newline>}\<newline>let z = 1;''"

definition arrowsSample :: string where
  "arrowsSample = ''const simple = () => true;\<newline>\<newline>const withParams = (a, b) => {\<newline>    return a + b;\<newline>};\<newline>\<newline>export const exported = async (data) => {\<newline>    return await process(data);\<newline>};''"

text \<open>A comment that speaks of a class by its number, before a class.\<close>

definition numberedSample :: string where
  "numberedSample = ''// class 1 of 2\<newline>class A {}''"

text \<open>A parameter whose default value is a string holding an opening brace.\<close>

definition braceStringSample :: string where
  \<open>braceStringSample = ''function f(a = "{") {\<newline>}\<newline>function g() {\<newline>}''\<close>

section \<open>Properties of the matcher\<close>

lemma greedy_text:
  "(p', s', c') \<in> set (greedy P (p, s, c)) \<Longrightarrow> c' = c \<and> (\<exists>t. s = t @ s' \<and> list_all P t)"
proof (induction s arbitrary: p)
  case Nil
  then show ?case by simp
next
  case (Cons x xs)
  show ?case
  proof (cases "P x \<and> (p', s', c') \<in> set (greedy P (Some x, xs, c))")
    case True
    with Cons.IH[of "Some x"] obtain t where "c' = c" "xs = t @ s'" "list_all P t" by auto
    with True have "x # xs = (x # t) @ s' \<and> list_all P (x # t)" by simp
    with \<open>c' = c\<close> show ?thesis by blast
  next
    case False
    with Cons.prems have "(p', s', c') = (p, x # xs, c)" by (auto split: if_splits)
    then have "x # xs = [] @ s' \<and> list_all P []" by simp
    with \<open>(p', s', c') = (p, x # xs, c)\<close> show ?thesis by blast
  qed
qed

lemma lazy_text:
  "(p', s', c') \<in> set (lazy P (p, s, c)) \<Longrightarrow> c' = c \<and> (\<exists>t. s = t @ s' \<and> list_all P t)"
proof (induction s arbitrary: p)
  case Nil
  then show ?case by simp
next
  case (Cons x xs)
  show ?case
  proof (cases "P x \<and> (p', s', c') \<in> set (lazy P (Some x, xs, c))")
    case True
    with Cons.IH[of "Some x"] obtain t where "c' = c" "xs = t @ s'" "list_all P t" by auto
    with True have "x # xs = (x # t) @ s' \<and> list_all P (x # t)" by simp
    with \<open>c' = c\<close> show ?thesis by blast
  next
    case False
    with Cons.prems have "(p', s', c') = (p, x # xs, c)" by (auto split: if_splits)
    then have "x # xs = [] @ s' \<and> list_all P []" by simp
    with \<open>(p', s', c') = (p, x # xs, c)\<close> show ?thesis by blast
  qed
qed

lemma plus_text:
  assumes "(p', s', c') \<in> set (ms (Plus P) (p, s, c))"
  shows "c' = c \<and> (\<exists>t. s = t @ s' \<and> t \<noteq> [] \<and> list_all P t)"
proof -
  from assms obtain x xs where s: "s = x # xs" "P x"
    and g: "(p', s', c') \<in> set (greedy P (Some x, xs, c))"
    by (auto split: list.splits if_splits)
  from greedy_text[OF g] obtain t where "c' = c" "xs = t @ s'" "list_all P t" by auto
  with s have "s = (x # t) @ s' \<and> x # t \<noteq> [] \<and> list_all P (x # t)" by simp
  with \<open>c' = c\<close> show ?thesis by blast
qed

lemma ms_caps:
  "(p', s', c') \<in> set (ms r (p, s, c)) \<Longrightarrow> \<exists>new. c' = new @ c \<and> fst ` set new \<subseteq> groups r"
proof (induction r arbitrary: p s c p' s' c')
  case (Lit w)
  then show ?case by (auto split: if_splits)
next
  case (Cls P)
  then show ?case by (auto split: list.splits if_splits)
next
  case (Star P)
  then show ?case by (auto dest: greedy_text)
next
  case (Plus P)
  from plus_text[OF Plus.prems] show ?case by simp
next
  case (LazyStar P)
  then show ?case by (auto dest: lazy_text)
next
  case (Opt r)
  then show ?case by auto
next
  case (Seq a b)
  from Seq.prems obtain p1 s1 c1 where
    a: "(p1, s1, c1) \<in> set (ms a (p, s, c))" and b: "(p', s', c') \<in> set (ms b (p1, s1, c1))"
    by auto
  from Seq.IH(1)[OF a] obtain n1 where n1: "c1 = n1 @ c" "fst ` set n1 \<subseteq> groups a" by blast
  from Seq.IH(2)[OF b] obtain n2 where n2: "c' = n2 @ c1" "fst ` set n2 \<subseteq> groups b" by blast
  from n1 n2 have "c' = (n2 @ n1) @ c \<and> fst ` set (n2 @ n1) \<subseteq> groups (Seq a b)" by auto
  then show ?case by blast
next
  case (Alt a b)
  then show ?case by fastforce
next
  case (Grp n r)
  from Grp.prems obtain c0 where c0: "c' = (n, take (length s - length s') s) # c0"
    and r: "(p', s', c0) \<in> set (ms r (p, s, c))" by auto
  from Grp.IH[OF r] obtain new where "c0 = new @ c" "fst ` set new \<subseteq> groups r" by blast
  with c0 have "c' = ((n, take (length s - length s') s) # new) @ c
      \<and> fst ` set ((n, take (length s - length s') s) # new) \<subseteq> groups (Grp n r)" by auto
  then show ?case by blast
next
  case Bol
  then show ?case by (auto split: option.splits if_splits)
next
  case Eoi
  then show ?case by (auto split: if_splits)
qed

lemma ms_no_groups:
  "(p', s', c') \<in> set (ms r (p, s, c)) \<Longrightarrow> groups r = {} \<Longrightarrow> c' = c"
  by (drule ms_caps) auto

lemma ms_SeqE:
  assumes "(p', s', c') \<in> set (ms (Seq a b) (p, s, c))"
  obtains p1 s1 c1 where "(p1, s1, c1) \<in> set (ms a (p, s, c))"
    and "(p', s', c') \<in> set (ms b (p1, s1, c1))"
  using assms by auto

lemma ms_GrpE:
  assumes "(p', s', c') \<in> set (ms (Grp n r) (p, s, c))"
  obtains c0 where "c' = (n, take (length s - length s') s) # c0"
    and "(p', s', c0) \<in> set (ms r (p, s, c))"
  using assms by auto

lemma suffixD: "suffix s' s \<Longrightarrow> \<exists>a. s = a @ s'"
  by (auto simp: suffix_def)

lemma pythonPattern_caps:
  assumes "(p', s', c') \<in> set (ms pythonPattern (p, s, c))"
  shows "\<exists>a n rest. c' = (2, n) # rest \<and> s = a @ n @ s' \<and> n \<noteq> []
           \<and> isIdentStart (hd n) \<and> list_all isWordChar (tl n)"
proof -
  from assms obtain p1 s1 c1 p2 s2 c2 p3 s3 c3 where
    1: "(p1, s1, c1) \<in> set (ms Bol (p, s, c))"
    and 2: "(p2, s2, c2) \<in> set (ms (Grp 1 (Alt (seqs [Lit ''async'', Plus isSpace, Lit ''def''])
                (Alt (Lit ''def'') (Lit ''class'')))) (p1, s1, c1))"
    and 3: "(p3, s3, c3) \<in> set (ms (Plus isSpace) (p2, s2, c2))"
    and 4: "(p', s', c') \<in> set (ms (Grp 2 (Seq (Cls isIdentStart) (Star isWordChar))) (p3, s3, c3))"
    unfolding pythonPattern_def seqs.simps by (elim ms_SeqE)
  from ms_suffix[OF 1] ms_suffix[OF 2] ms_suffix[OF 3] have "suffix s3 s"
    by (meson suffix_order.trans)
  then obtain a where a: "s = a @ s3" by (auto dest: suffixD)
  from 4 obtain c0 where c': "c' = (2, take (length s3 - length s') s3) # c0"
    and 5: "(p', s', c0) \<in> set (ms (Seq (Cls isIdentStart) (Star isWordChar)) (p3, s3, c3))"
    by (elim ms_GrpE)
  from 5 obtain x xs where s3: "s3 = x # xs" "isIdentStart x"
    and g: "(p', s', c0) \<in> set (greedy isWordChar (Some x, xs, c3))"
    by (auto split: list.splits if_splits)
  from greedy_text[OF g] obtain t where t: "xs = t @ s'" "list_all isWordChar t" by auto
  with s3 have "take (length s3 - length s') s3 = x # t" by simp
  with c' a s3 t show ?thesis by auto
qed

lemma isIdentStart_isWordChar: "isIdentStart x \<Longrightarrow> isWordChar x"
  by (auto simp: isIdentStart_def isWordChar_def)

lemma jsDeclPattern_caps:
  assumes "(p', s', c') \<in> set (ms jsDeclPattern (p, s, c))"
  shows "\<exists>a n rest. c' = (3, n) # rest \<and> s = a @ n @ s' \<and> n \<noteq> [] \<and> list_all isWordChar n"
proof -
  from assms obtain p1 s1 c1 p2 s2 c2 p3 s3 c3 p4 s4 c4 p5 s5 c5 where
    1: "(p1, s1, c1) \<in> set (ms (Opt (seqs [Lit ''/**'', LazyStar anyChar, Lit ''*/'', Star isSpace])) (p, s, c))"
    and 2: "(p2, s2, c2) \<in> set (ms (Opt (seqs [Lit ''export'', Plus isSpace])) (p1, s1, c1))"
    and 3: "(p3, s3, c3) \<in> set (ms (Opt (Grp 1 (seqs [Lit ''async'', Plus isSpace]))) (p2, s2, c2))"
    and 4: "(p4, s4, c4) \<in> set (ms (Grp 2 (Alt (seqs [Lit ''function'', Opt (Lit ''*'')]) (Lit ''class''))) (p3, s3, c3))"
    and 5: "(p5, s5, c5) \<in> set (ms (Plus isSpace) (p4, s4, c4))"
    and 6: "(p', s', c') \<in> set (ms (Grp 3 (Plus isWordChar)) (p5, s5, c5))"
    unfolding jsDeclPattern_def seqs.simps by (elim ms_SeqE)
  from ms_suffix[OF 1] ms_suffix[OF 2] ms_suffix[OF 3] ms_suffix[OF 4] ms_suffix[OF 5]
  have "suffix s5 s" by (meson suffix_order.trans)
  then obtain a where a: "s = a @ s5" by (auto dest: suffixD)
  from 6 obtain c0 where c': "c' = (3, take (length s5 - length s') s5) # c0"
    and 7: "(p', s', c0) \<in> set (ms (Plus isWordChar) (p5, s5, c5))"
    by (elim ms_GrpE)
  from plus_text[OF 7] obtain t where t: "s5 = t @ s'" "t \<noteq> []" "list_all isWordChar t" by auto
  then have "take (length s5 - length s') s5 = t" by simp
  with c' a t show ?thesis by auto
qed

lemma jsArrowPattern_caps:
  assumes "(p', s', c') \<in> set (ms jsArrowPattern (p, s, []))"
  shows "\<exists>a b n rest. c' = (5, n) # rest \<and> map_of rest 3 = None \<and> s = a @ n @ b @ s'
           \<and> n \<noteq> [] \<and> list_all isWordChar n"
proof -
  define REST where "REST = seqs [Star isSpace, Lit ''='', Star isSpace,
     Opt (Lit ''async''),
     Star isSpace,
     Lit ''('', LazyStar notLineTerminator, Lit '')'',
     Star isSpace, Lit ''=>'']"
  have REST: "groups REST = {}" by (simp add: REST_def)
  have pat: "jsArrowPattern = Seq (Opt (seqs [Lit ''export'', Plus isSpace]))
     (Seq (Grp 4 (Alt (Lit ''const'') (Alt (Lit ''let'') (Lit ''var''))))
     (Seq (Plus isSpace) (Seq (Grp 5 (Plus isWordChar)) REST)))"
    by (simp add: jsArrowPattern_def REST_def)
  from assms obtain p1 s1 c1 p2 s2 c2 p3 s3 c3 p4 s4 c4 where
    1: "(p1, s1, c1) \<in> set (ms (Opt (seqs [Lit ''export'', Plus isSpace])) (p, s, []))"
    and 2: "(p2, s2, c2) \<in> set (ms (Grp 4 (Alt (Lit ''const'') (Alt (Lit ''let'') (Lit ''var'')))) (p1, s1, c1))"
    and 3: "(p3, s3, c3) \<in> set (ms (Plus isSpace) (p2, s2, c2))"
    and 4: "(p4, s4, c4) \<in> set (ms (Grp 5 (Plus isWordChar)) (p3, s3, c3))"
    and 5: "(p', s', c') \<in> set (ms REST (p4, s4, c4))"
    unfolding pat by (elim ms_SeqE)
  from ms_suffix[OF 1] ms_suffix[OF 2] ms_suffix[OF 3]
  have "suffix s3 s" by (meson suffix_order.trans)
  then obtain a where a: "s = a @ s3" by (auto dest: suffixD)
  from ms_suffix[OF 5] obtain b where b: "s4 = b @ s'" by (auto dest: suffixD)
  from ms_no_groups[OF 1] have c1: "c1 = []" by simp
  from ms_caps[OF 2] c1 obtain new where new: "c2 = new" "fst ` set new \<subseteq> {4}" by auto
  from ms_no_groups[OF 3] have c3: "c3 = c2" by simp
  from new c3 have "3 \<notin> fst ` set c3" by auto
  then have none: "map_of c3 3 = None" by (simp add: map_of_eq_None_iff)
  from 4 obtain c0 where c4: "c4 = (5, take (length s3 - length s4) s3) # c0"
    and 6: "(p4, s4, c0) \<in> set (ms (Plus isWordChar) (p3, s3, c3))"
    by (elim ms_GrpE)
  from plus_text[OF 6] obtain t where t: "c0 = c3" "s3 = t @ s4" "t \<noteq> []" "list_all isWordChar t"
    by auto
  then have "take (length s3 - length s4) s3 = t" by simp
  moreover from ms_no_groups[OF 5 REST] have "c' = c4" .
  ultimately show ?thesis using c4 t a b none by auto
qed

lemma rxExec_matchAt:
  "rxExec r content i = Some m \<Longrightarrow>
     \<exists>j. i \<le> j \<and> j \<le> length content \<and> matchAt r content j = Some m"
proof (induction r content i rule: rxExec.induct)
  case (1 r content i)
  show ?case
  proof (cases "length content < i")
    case True
    with "1.prems" show ?thesis by (simp add: rxExec.simps)
  next
    case False
    show ?thesis
    proof (cases "matchAt r content i")
      case None
      with False "1.prems" have "rxExec r content (Suc i) = Some m"
        by (simp add: rxExec.simps[of r content i])
      from "1.IH"[OF False None this] show ?thesis by (auto intro: Suc_leD)
    next
      case (Some m')
      with False "1.prems" have "m' = m"
        by (simp add: rxExec.simps[of r content i])
      with Some False show ?thesis by auto
    qed
  qed
qed

lemma pythonMatches_matchAt:
  "m \<in> set (pythonMatches content i) \<Longrightarrow>
     \<exists>j. i \<le> j \<and> j \<le> length content \<and> matchAt pythonPattern content j = Some m"
proof (induction content i rule: pythonMatches.induct)
  case (1 content lastIndex)
  show ?case
  proof (cases "rxExec pythonPattern content lastIndex")
    case None
    with "1.prems" show ?thesis by (simp add: pythonMatches.simps[of content lastIndex])
  next
    case (Some m')
    with "1.prems" consider "m = m'" | "m \<in> set (pythonMatches content (m_end m'))"
      by (auto simp: pythonMatches.simps[of content lastIndex])
    then show ?thesis
    proof cases
      case 1
      with Some rxExec_matchAt[of pythonPattern content lastIndex m] show ?thesis by simp
    next
      case 2
      from "1.IH"[OF Some 2] obtain j where
        "m_end m' \<le> j" "j \<le> length content" "matchAt pythonPattern content j = Some m"
        by blast
      moreover from rxExec_bounds[OF Some] have "lastIndex \<le> m_end m'" by simp
      ultimately show ?thesis by (meson le_trans)
    qed
  qed
qed

lemma jsMatches_matchAt:
  "m \<in> set (jsMatches content i) \<Longrightarrow>
     \<exists>j. i \<le> j \<and> j \<le> length content \<and> matchAt jsPattern content j = Some m"
proof (induction content i rule: jsMatches.induct)
  case (1 content lastIndex)
  show ?case
  proof (cases "rxExec jsPattern content lastIndex")
    case None
    with "1.prems" show ?thesis by (simp add: jsMatches.simps[of content lastIndex])
  next
    case (Some m')
    with "1.prems" consider "m = m'" | "m \<in> set (jsMatches content (m_end m'))"
      by (auto simp: jsMatches.simps[of content lastIndex])
    then show ?thesis
    proof cases
      case 1
      with Some rxExec_matchAt[of jsPattern content lastIndex m] show ?thesis by simp
    next
      case 2
      from "1.IH"[OF Some 2] obtain j where
        "m_end m' \<le> j" "j \<le> length content" "matchAt jsPattern content j = Some m"
        by blast
      moreover from rxExec_bounds[OF Some] have "lastIndex \<le> m_end m'" by simp
      ultimately show ?thesis by (meson le_trans)
    qed
  qed
qed

lemma matchAt_result:
  assumes "matchAt r content j = Some m" and "j \<le> length content"
  obtains p s caps where
    "(p, s, caps) \<in> set (ms r (prevChar content j, drop j content, []))"
    "m_caps m = caps" "m_index m = j"
    "drop j content = m_text m @ s"
proof -
  from assms(1) obtain p s caps rest where
    ms: "ms r (prevChar content j, drop j content, []) = (p, s, caps) # rest"
    and m: "m = \<lparr>m_index = j, m_end = length content - length s,
                 m_text = take (length content - length s - j) (drop j content),
                 m_caps = caps\<rparr>"
    by (auto simp: matchAt_def split: list.splits)
  from ms have mem: "(p, s, caps) \<in> set (ms r (prevChar content j, drop j content, []))"
    by simp
  from ms_suffix[OF mem] obtain a where a: "drop j content = a @ s" by (auto dest: suffixD)
  then have "length content - j = length a + length s"
    by (metis length_append length_drop)
  with a assms(2) have "take (length content - length s - j) (drop j content) = a" by simp
  with m have t: "m_text m = a" by simp
  from m have c: "m_caps m = caps" "m_index m = j" by simp_all
  show thesis by (rule that[OF mem c]) (simp add: t a)
qed

lemma pythonMatch_name:
  assumes "m \<in> set (pythonMatches content i)"
  shows "\<exists>n. group m 2 = Some n \<and> n \<noteq> [] \<and> isIdentStart (hd n) \<and> list_all isWordChar n
           \<and> suffix n (m_text m)
           \<and> name (pythonChunk content path lines m) = n"
proof -
  from pythonMatches_matchAt[OF assms] obtain j where
    j: "j \<le> length content" "matchAt pythonPattern content j = Some m" by blast
  from matchAt_result[OF j(2,1)] obtain p s caps where
    r: "(p, s, caps) \<in> set (ms pythonPattern (prevChar content j, drop j content, []))"
       "m_caps m = caps" "drop j content = m_text m @ s" by blast
  from pythonPattern_caps[OF r(1)] obtain a n rest where
    n: "caps = (2, n) # rest" "drop j content = a @ n @ s" "n \<noteq> []"
       "isIdentStart (hd n)" "list_all isWordChar (tl n)" by blast
  from n(3,4,5) have w: "list_all isWordChar n"
    by (cases n) (auto simp: isIdentStart_isWordChar)
  from r(3) n(2) have "m_text m = a @ n" by simp
  then have "suffix n (m_text m)" by (simp add: suffix_def)
  moreover from r(2) n(1) have "group m 2 = Some n" by (simp add: group_def)
  moreover from this n(3) have "name (pythonChunk content path lines m) = n"
    by (simp add: pythonChunk_def Let_def)
  ultimately show ?thesis using n(3,4) w by blast
qed

lemma jsMatch_name:
  assumes "m \<in> set (jsMatches content i)"
  shows "\<exists>n. (group m 3 = Some n \<or> group m 3 = None \<and> group m 5 = Some n)
           \<and> n \<noteq> [] \<and> list_all isWordChar n \<and> sublist n (m_text m)
           \<and> name (jsChunk content path lang lines m) = n"
proof -
  from jsMatches_matchAt[OF assms] obtain j where
    j: "j \<le> length content" "matchAt jsPattern content j = Some m" by blast
  from matchAt_result[OF j(2,1)] obtain p s caps where
    r: "(p, s, caps) \<in> set (ms jsPattern (prevChar content j, drop j content, []))"
       "m_caps m = caps" "drop j content = m_text m @ s" by blast
  from r(1) consider
      "(p, s, caps) \<in> set (ms jsDeclPattern (prevChar content j, drop j content, []))"
    | "(p, s, caps) \<in> set (ms jsArrowPattern (prevChar content j, drop j content, []))"
    by (auto simp: jsPattern_def)
  then show ?thesis
  proof cases
    case 1
    from jsDeclPattern_caps[OF 1] obtain a n rest where
      n: "caps = (3, n) # rest" "drop j content = a @ n @ s" "n \<noteq> []" "list_all isWordChar n"
      by blast
    from r(3) n(2) have "m_text m = a @ n" by simp
    then have "sublist n (m_text m)" by (metis sublist_appendI suffix_def suffix_imp_sublist)
    moreover from r(2) n(1) have g: "group m 3 = Some n" by (simp add: group_def)
    moreover from g n(3) have "name (jsChunk content path lang lines m) = n"
      by (simp add: jsChunk_def Let_def orElse_def)
    ultimately show ?thesis using n(3,4) by blast
  next
    case 2
    from jsArrowPattern_caps[OF 2] obtain a b n rest where
      n: "caps = (5, n) # rest" "map_of rest 3 = None" "drop j content = a @ n @ b @ s"
         "n \<noteq> []" "list_all isWordChar n"
      by blast
    from r(3) n(3) have "m_text m = a @ n @ b" by simp
    then have "sublist n (m_text m)" by (auto simp: sublist_def)
    moreover from r(2) n(1,2) have g: "group m 3 = None" "group m 5 = Some n"
      by (simp_all add: group_def)
    moreover from g n(4) have "name (jsChunk content path lang lines m) = n"
      by (simp add: jsChunk_def Let_def orElse_def)
    ultimately show ?thesis using n(4,5) by blast
  qed
qed


section \<open>Properties of lines and blocks\<close>

lemma splitNl_not_Nil: "splitNl s \<noteq> []"
  by (induction s) (auto split: list.splits)

lemma length_splitNl: "length (splitNl s) = Suc (length (filter (\<lambda>c. c = newline) s))"
  by (induction s) (auto split: list.splits simp: splitNl_not_Nil)

lemma joinNl_splitNl: "joinNl (splitNl s) = s"
proof (induction s)
  case Nil
  then show ?case by simp
next
  case (Cons c cs)
  obtain l ls where sp: "splitNl cs = l # ls" using splitNl_not_Nil by (cases "splitNl cs") auto
  show ?case
  proof (cases "c = newline")
    case True
    with Cons sp show ?thesis by simp
  next
    case False
    with Cons sp show ?thesis by (cases ls) auto
  qed
qed

lemma lineNumberAt_ge1: "1 \<le> lineNumberAt content i"
  by (simp add: lineNumberAt_def length_splitNl)

lemma lineNumberAt_mono:
  assumes "i \<le> j"
  shows "lineNumberAt content i \<le> lineNumberAt content j"
proof -
  from assms have "take j content = take i content @ take (j - i) (drop i content)"
    by (metis le_add_diff_inverse take_add)
  then show ?thesis by (simp add: lineNumberAt_def length_splitNl)
qed

lemma lineNumberAt_all: "length content \<le> i \<Longrightarrow> lineNumberAt content i = length (splitNl content)"
  by (simp add: lineNumberAt_def)

lemma lineNumberAt_le: "lineNumberAt content i \<le> length (splitNl content)"
  using lineNumberAt_mono[of i "max i (length content)" content]
    lineNumberAt_all[of content "max i (length content)"] by simp

lemma slice_nth: "b \<le> length xs \<Longrightarrow> slice xs a b = map ((!) xs) [a..<b]"
proof -
  assume b: "b \<le> length xs"
  have "take (b - a) [a..<length xs] = [a..<b]"
  proof (cases "a \<le> b")
    case True
    with b show ?thesis by (simp add: take_upt)
  next
    case False
    then show ?thesis by simp
  qed
  then have "slice (map ((!) xs) [0..<length xs]) a b = map ((!) xs) [a..<b]"
    by (simp add: slice_def take_map drop_map)
  then show ?thesis by (simp add: map_nth)
qed


lemma joinNl_drop_suffix: "k < length ls \<Longrightarrow> suffix (joinNl (drop k ls)) (joinNl ls)"
proof (induction ls arbitrary: k)
  case Nil
  then show ?case by simp
next
  case (Cons l ls)
  show ?case
  proof (cases k)
    case 0
    then show ?thesis by simp
  next
    case (Suc k')
    with Cons.prems have k': "k' < length ls" by simp
    then obtain l' ls' where ls: "ls = l' # ls'" by (cases ls) auto
    from Cons.IH[OF k'] have "suffix (joinNl (drop k' ls)) (joinNl ls)" .
    then have "suffix (joinNl (drop k' ls)) (l @ newline # joinNl ls)"
      by (metis suffix_Cons suffix_appendI)
    with Suc ls show ?thesis by simp
  qed
qed

lemma pyEndLoop_bounds:
  "e \<le> i \<Longrightarrow> e \<le> pyEndLoop lines ind i e \<and> pyEndLoop lines ind i e \<le> max e (length lines)"
proof (induction lines ind i e rule: pyEndLoop.induct)
  case (1 lines ind i e)
  show ?case
  proof (cases "i < length lines")
    case False
    then show ?thesis by (simp add: pyEndLoop.simps[of lines ind i e])
  next
    case True
    note lt = True
    show ?thesis
    proof (cases "lines ! i = [] \<or> trim (lines ! i) = []")
      case True
      with lt "1.IH"(1)[OF lt True] "1.prems" show ?thesis
        by (simp add: pyEndLoop.simps[of lines ind i e])
    next
      case False
      note nb = False
      show ?thesis
      proof (cases "indentOf (lines ! i) \<le> ind")
        case True
        with lt nb show ?thesis by (simp add: pyEndLoop.simps[of lines ind i e])
      next
        case False
        have eq: "pyEndLoop lines ind i e = pyEndLoop lines ind (Suc i) (i + 1)"
          using lt nb False by (simp add: pyEndLoop.simps[of lines ind i e])
        from "1.IH"(2)[OF lt nb False] "1.prems" lt show ?thesis unfolding eq by auto
      qed
    qed
  qed
qed

lemma pyEndLoop_spec:
  assumes "e \<le> i"
  shows "(pyEndLoop lines ind i e = e
           \<or> i < pyEndLoop lines ind i e \<and> pyEndLoop lines ind i e \<le> length lines
             \<and> \<not> blank (lines ! (pyEndLoop lines ind i e - 1))
             \<and> ind < indentOf (lines ! (pyEndLoop lines ind i e - 1)))
       \<and> (\<forall>k. i \<le> k \<and> k < pyEndLoop lines ind i e \<longrightarrow>
              blank (lines ! k) \<or> ind < indentOf (lines ! k))
       \<and> (\<forall>j. max i (pyEndLoop lines ind i e) \<le> j \<and> j < length lines
              \<and> \<not> blank (lines ! j)
              \<and> (\<forall>k. max i (pyEndLoop lines ind i e) \<le> k \<and> k < j \<longrightarrow> blank (lines ! k))
              \<longrightarrow> indentOf (lines ! j) \<le> ind)"
  using assms
proof (induction lines ind i e rule: pyEndLoop.induct)
  case (1 lines ind i e)
  show ?case
  proof (cases "i < length lines")
    case False
    with "1.prems" show ?thesis by (simp add: pyEndLoop.simps[of lines ind i e])
  next
    case True
    note lt = True
    show ?thesis
    proof (cases "lines ! i = [] \<or> trim (lines ! i) = []")
      case True
      then have bl: "blank (lines ! i)" by (simp add: blank_def)
      have eq: "pyEndLoop lines ind i e = pyEndLoop lines ind (Suc i) e"
        using lt True by (simp add: pyEndLoop.simps[of lines ind i e])
      from "1.prems" have "e \<le> Suc i" by simp
      note IH = "1.IH"(1)[OF lt True this]
      let ?r = "pyEndLoop lines ind (Suc i) e"
      have a: "?r = e \<or> i < ?r \<and> ?r \<le> length lines \<and> \<not> blank (lines ! (?r - 1))
             \<and> ind < indentOf (lines ! (?r - 1))"
        using IH by auto
      have b: "\<forall>k. i \<le> k \<and> k < ?r \<longrightarrow> blank (lines ! k) \<or> ind < indentOf (lines ! k)"
      proof (intro allI impI)
        fix k assume k: "i \<le> k \<and> k < ?r"
        show "blank (lines ! k) \<or> ind < indentOf (lines ! k)"
        proof (cases "k = i")
          case True
          with bl show ?thesis by simp
        next
          case False
          with k have "Suc i \<le> k \<and> k < ?r" by simp
          with IH show ?thesis by blast
        qed
      qed
      have c: "\<forall>j. max i ?r \<le> j \<and> j < length lines \<and> \<not> blank (lines ! j)
              \<and> (\<forall>k. max i ?r \<le> k \<and> k < j \<longrightarrow> blank (lines ! k))
              \<longrightarrow> indentOf (lines ! j) \<le> ind"
      proof (intro allI impI)
        fix j assume j: "max i ?r \<le> j \<and> j < length lines \<and> \<not> blank (lines ! j)
              \<and> (\<forall>k. max i ?r \<le> k \<and> k < j \<longrightarrow> blank (lines ! k))"
        with bl have "j \<noteq> i" by auto
        with j have "max (Suc i) ?r \<le> j" by auto
        moreover have "\<forall>k. max (Suc i) ?r \<le> k \<and> k < j \<longrightarrow> blank (lines ! k)"
          using j by auto
        ultimately show "indentOf (lines ! j) \<le> ind" using IH j by blast
      qed
      from a b c show ?thesis unfolding eq by blast
    next
      case False
      note nb = False
      then have nbl: "\<not> blank (lines ! i)" by (simp add: blank_def)
      show ?thesis
      proof (cases "indentOf (lines ! i) \<le> ind")
        case True
        have eq: "pyEndLoop lines ind i e = e"
          using lt nb True by (simp add: pyEndLoop.simps[of lines ind i e])
        have "\<forall>j. max i e \<le> j \<and> j < length lines \<and> \<not> blank (lines ! j)
              \<and> (\<forall>k. max i e \<le> k \<and> k < j \<longrightarrow> blank (lines ! k))
              \<longrightarrow> indentOf (lines ! j) \<le> ind"
        proof (intro allI impI)
          fix j assume j: "max i e \<le> j \<and> j < length lines \<and> \<not> blank (lines ! j)
              \<and> (\<forall>k. max i e \<le> k \<and> k < j \<longrightarrow> blank (lines ! k))"
          have "j = i"
          proof (rule ccontr)
            assume "j \<noteq> i"
            with j "1.prems" have "max i e \<le> i \<and> i < j" by auto
            with j have "blank (lines ! i)" by blast
            with nbl show False by simp
          qed
          with True show "indentOf (lines ! j) \<le> ind" by simp
        qed
        with "1.prems" show ?thesis unfolding eq by auto
      next
        case False
        have eq: "pyEndLoop lines ind i e = pyEndLoop lines ind (Suc i) (i + 1)"
          using lt nb False by (simp add: pyEndLoop.simps[of lines ind i e])
        have "i + 1 \<le> Suc i" by simp
        note IH = "1.IH"(2)[OF lt nb False this]
        let ?r = "pyEndLoop lines ind (Suc i) (i + 1)"
        from pyEndLoop_bounds[of "i + 1" "Suc i" lines ind] have r: "i < ?r" by simp
        have a: "i < ?r \<and> ?r \<le> length lines \<and> \<not> blank (lines ! (?r - 1))
             \<and> ind < indentOf (lines ! (?r - 1))"
          using IH r lt nbl False by (cases "?r = i + 1") auto
        have b: "\<forall>k. i \<le> k \<and> k < ?r \<longrightarrow> blank (lines ! k) \<or> ind < indentOf (lines ! k)"
        proof (intro allI impI)
          fix k assume k: "i \<le> k \<and> k < ?r"
          show "blank (lines ! k) \<or> ind < indentOf (lines ! k)"
          proof (cases "k = i")
            case True
            with False show ?thesis by simp
          next
            case False
            with k have "Suc i \<le> k \<and> k < ?r" by simp
            with IH show ?thesis by blast
          qed
        qed
        have c: "\<forall>j. max i ?r \<le> j \<and> j < length lines \<and> \<not> blank (lines ! j)
              \<and> (\<forall>k. max i ?r \<le> k \<and> k < j \<longrightarrow> blank (lines ! k))
              \<longrightarrow> indentOf (lines ! j) \<le> ind"
        proof (intro allI impI)
          fix j assume j: "max i ?r \<le> j \<and> j < length lines \<and> \<not> blank (lines ! j)
              \<and> (\<forall>k. max i ?r \<le> k \<and> k < j \<longrightarrow> blank (lines ! k))"
          from r have m: "max i ?r = max (Suc i) ?r" by simp
          from j have "max (Suc i) ?r \<le> j \<and> j < length lines \<and> \<not> blank (lines ! j)
              \<and> (\<forall>k. max (Suc i) ?r \<le> k \<and> k < j \<longrightarrow> blank (lines ! k))"
            unfolding m .
          with IH show "indentOf (lines ! j) \<le> ind" by blast
        qed
        from a b c show ?thesis unfolding eq by blast
      qed
    qed
  qed
qed

lemma length_takeWhile_indentOf: "length (takeWhile isSpace line) = indentOf line"
proof -
  have "length line = length (takeWhile isSpace line) + length (dropWhile isSpace line)"
    by (metis length_append takeWhile_dropWhile_id)
  then show ?thesis by (simp add: indentOf_def trimStart_def)
qed



lemma findOpenBrace_first:
  "i \<le> findOpenBrace content i
   \<and> findOpenBrace content i \<le> max i (length content)
   \<and> (findOpenBrace content i < length content \<longrightarrow> content ! findOpenBrace content i = CHR ''{'')
   \<and> (\<forall>j. i \<le> j \<and> j < findOpenBrace content i \<longrightarrow> content ! j \<noteq> CHR ''{'')"
proof (induction content i rule: findOpenBrace.induct)
  case (1 content i)
  show ?case
  proof (cases "i < length content \<and> content ! i \<noteq> CHR ''{''")
    case False
    then show ?thesis by (auto simp: findOpenBrace.simps[of content i])
  next
    case True
    have eq: "findOpenBrace content i = findOpenBrace content (Suc i)"
      using True by (simp add: findOpenBrace.simps[of content i])
    let ?f = "findOpenBrace content (Suc i)"
    from "1.IH"[OF True] have
      a: "Suc i \<le> ?f" and b: "?f \<le> max (Suc i) (length content)"
      and c: "?f < length content \<longrightarrow> content ! ?f = CHR ''{''"
      and d: "\<forall>j. Suc i \<le> j \<and> j < ?f \<longrightarrow> content ! j \<noteq> CHR ''{''"
      by blast+
    from a have "i \<le> ?f" by simp
    moreover from b True have "?f \<le> max i (length content)" by simp
    moreover have "\<forall>j. i \<le> j \<and> j < ?f \<longrightarrow> content ! j \<noteq> CHR ''{''"
    proof (intro allI impI)
      fix j assume j: "i \<le> j \<and> j < ?f"
      show "content ! j \<noteq> CHR ''{''"
      proof (cases "j = i")
        case True
        with \<open>i < length content \<and> content ! i \<noteq> CHR ''{''\<close> show ?thesis by simp
      next
        case False
        with j have "Suc i \<le> j \<and> j < ?f" by simp
        with d show ?thesis by blast
      qed
    qed
    ultimately show ?thesis unfolding eq using c by blast
  qed
qed




lemma scanStep_no_close:
  "ch \<noteq> CHR ''}'' \<Longrightarrow> 0 \<le> openBraces st \<and> (firstBraceFound st \<longrightarrow> 1 \<le> openBraces st) \<Longrightarrow>
     0 \<le> openBraces (scanStep ch st)
     \<and> (firstBraceFound (scanStep ch st) \<longrightarrow> 1 \<le> openBraces (scanStep ch st))"
  by (auto simp: scanStep_def split: option.splits)

lemma scanLoop_no_close:
  "CHR ''}'' \<notin> set (drop i content) \<Longrightarrow>
     0 \<le> openBraces st \<and> (firstBraceFound st \<longrightarrow> 1 \<le> openBraces st) \<Longrightarrow>
     scanLoop content i st = None"
proof (induction content i st rule: scanLoop.induct)
  case (1 content i st)
  show ?case
  proof (cases "i < length content")
    case False
    then show ?thesis by (simp add: scanLoop.simps[of content i st])
  next
    case True
    then have d: "drop i content = content ! i # drop (Suc i) content"
      by (simp add: Cons_nth_drop_Suc)
    with "1.prems"(1) have ne: "content ! i \<noteq> CHR ''}''"
      and rest: "CHR ''}'' \<notin> set (drop (Suc i) content)" by auto
    from scanStep_no_close[OF ne "1.prems"(2)]
    have inv: "0 \<le> openBraces (scanStep (content ! i) st)
       \<and> (firstBraceFound (scanStep (content ! i) st)
                 \<longrightarrow> 1 \<le> openBraces (scanStep (content ! i) st))" .
    then have no: "\<not> (firstBraceFound (scanStep (content ! i) st)
                      \<and> openBraces (scanStep (content ! i) st) = 0)" by auto
    from "1.IH"[OF True refl no rest inv] True no show ?thesis
      by (simp add: scanLoop.simps[of content i st] Let_def)
  qed
qed


text \<open>
  The docstring of a Python block is made of one line only: the search for the closing
  quotes starts at the line of the opening quotes and finds them there.
\<close>

lemma includesStr_append: "includesStr (a @ q @ b) q"
proof (induction a)
  case Nil
  have "prefix q (q @ b)" by simp
  then show ?case by (cases "q @ b") auto
next
  case (Cons x a)
  then show ?case by simp
qed

lemma trim_decomp: "\<exists>a b. line = a @ trim line @ b"
proof -
  have 1: "line = takeWhile isSpace line @ dropWhile isSpace line" by simp
  define r where "r = dropWhile isSpace line"
  have "rev r = takeWhile isSpace (rev r) @ dropWhile isSpace (rev r)" by simp
  then have "r = rev (dropWhile isSpace (rev r)) @ rev (takeWhile isSpace (rev r))"
    by (metis rev_append rev_rev_ident)
  then have "r = trim line @ rev (takeWhile isSpace (rev r))"
    by (simp add: trim_def trimEnd_def trimStart_def r_def)
  with 1 have "line = takeWhile isSpace line @ trim line @ rev (takeWhile isSpace (rev r))"
    unfolding r_def by metis
  then show ?thesis by blast
qed

lemma includesStr_trim_prefix:
  assumes "prefix q (trim line)"
  shows "includesStr line q"
proof -
  from assms obtain r where r: "trim line = q @ r" by (auto simp: prefix_def)
  from trim_decomp[of line] obtain a b where "line = a @ trim line @ b" by blast
  with r have "line = a @ q @ (r @ b)" by simp
  then show ?thesis using includesStr_append by metis
qed

lemma docstring_is_one_line:
  assumes "1 \<le> startLn" and "startLn < length lines"
    and \<open>prefix ''"""'' (trim (lines ! startLn))
         \<or> prefix [singleQuote, singleQuote, singleQuote] (trim (lines ! startLn))\<close>
  shows "b_docstring (findPythonBlockEnd lines startLn)
           = Some (trim (removeAll_str (take 3 (trim (lines ! startLn))) (lines ! startLn)))"
proof -
  define q where "q = take 3 (trim (lines ! startLn))"
  from assms(3) have "prefix q (trim (lines ! startLn))"
    by (simp add: q_def take_is_prefix)
  then have inc: "includesStr (lines ! startLn) q" by (rule includesStr_trim_prefix)
  with assms(2) have f: "findQuoteLine lines q startLn = Some startLn"
    by (simp add: findQuoteLine.simps[of lines q startLn])
  from assms(2) have sl: "slice lines startLn (startLn + 1) = [lines ! startLn]"
    by (simp add: slice_def take_Suc_conv_app_nth Cons_nth_drop_Suc[symmetric])
  from assms(1) obtain k where k: "startLn = Suc k" by (cases startLn) auto
  note f' = f[unfolded q_def k] and sl' = sl[unfolded k]
  show ?thesis
    using assms(2,3) f' sl' unfolding k
    by (simp add: findPythonBlockEnd_def Let_def)
qed

text \<open>
  A Python match starts at the beginning of a line or right after a carriage return,
  and with a character that is not white space. Without carriage returns the line of
  the match has no indentation, and \<open>_isPythonMethod\<close> answers \<open>false\<close>.
\<close>

lemma splitNl_append_nl: "splitNl (a @ newline # b) = splitNl a @ splitNl b"
proof (induction a)
  case Nil
  then show ?case by simp
next
  case (Cons c a)
  obtain l ls where sp: "splitNl a = l # ls" using splitNl_not_Nil by (cases "splitNl a") auto
  with Cons show ?case by simp
qed

lemma hd_splitNl: "hd (splitNl s) = takeWhile (\<lambda>c. c \<noteq> newline) s"
proof (induction s)
  case Nil
  then show ?case by simp
next
  case (Cons c s)
  obtain l ls where sp: "splitNl s = l # ls" using splitNl_not_Nil by (cases "splitNl s") auto
  with Cons show ?case by simp
qed

lemma line_at_line_start:
  assumes "j \<le> length content" and "j = 0 \<or> content ! (j - 1) = newline"
  shows "splitNl content ! (lineNumberAt content j - 1)
           = takeWhile (\<lambda>c. c \<noteq> newline) (drop j content)"
proof (cases "j = 0")
  case True
  have "splitNl content ! 0 = hd (splitNl content)"
    using splitNl_not_Nil[of content] by (simp add: hd_conv_nth)
  with True show ?thesis by (simp add: lineNumberAt_def hd_splitNl)
next
  case False
  with assms have nl: "content ! (j - 1) = newline" and lt: "j - 1 < length content" by auto
  define a where "a = take (j - 1) content"
  from id_take_nth_drop[OF lt] nl False
  have c: "content = a @ newline # drop j content" by (simp add: a_def)
  from False lt have "take j content = a @ [newline]"
    using take_Suc_conv_app_nth[OF lt] nl by (simp add: a_def)
  then have n: "lineNumberAt content j = length (splitNl a) + 1"
    using splitNl_append_nl[of a "[]"] by (simp add: lineNumberAt_def)
  have "splitNl content = splitNl a @ splitNl (drop j content)"
    using splitNl_append_nl[of a "drop j content"] c by simp
  then have "splitNl content ! (length (splitNl a)) = hd (splitNl (drop j content))"
    using splitNl_not_Nil[of "drop j content"] by (simp add: nth_append hd_conv_nth)
  with n show ?thesis by (simp add: hd_splitNl)
qed

lemma pythonPattern_start:
  assumes "(p', s', c') \<in> set (ms pythonPattern (p, s, c))"
  shows "(p = None \<or> (\<exists>x. p = Some x \<and> isLineTerminator x))
         \<and> (\<exists>x xs. s = x # xs \<and> \<not> isSpace x)"
proof -
  from assms obtain p1 s1 c1 p2 s2 c2 where
    1: "(p1, s1, c1) \<in> set (ms Bol (p, s, c))"
    and 2: "(p2, s2, c2) \<in> set (ms (Grp 1 (Alt (seqs [Lit ''async'', Plus isSpace, Lit ''def''])
                (Alt (Lit ''def'') (Lit ''class'')))) (p1, s1, c1))"
    unfolding pythonPattern_def seqs.simps by (elim ms_SeqE)
  from 1 have b: "p = None \<or> (\<exists>x. p = Some x \<and> isLineTerminator x)" and s1: "s1 = s"
    by (auto split: option.splits if_splits)
  from 2 have "prefix ''async'' s1 \<or> prefix ''def'' s1 \<or> prefix ''class'' s1"
    by (auto split: if_splits)
  then have "\<exists>x xs. s1 = x # xs \<and> \<not> isSpace x"
    by (auto simp: prefix_def isSpace_def)
  with b s1 show ?thesis by simp
qed

lemma indentOf_nonspace: "\<not> isSpace x \<Longrightarrow> indentOf (x # xs) = 0"
  by (simp add: indentOf_def trimStart_def)

lemma pythonChunk_not_method:
  assumes "m \<in> set (pythonMatches content 0)" and "CHR 0x0D \<notin> set content"
  shows "chunkType (pythonChunk content path (splitNl content) m) \<noteq> Method"
proof -
  from pythonMatches_matchAt[OF assms(1)] obtain j where
    j: "j \<le> length content" "matchAt pythonPattern content j = Some m" by blast
  from matchAt_result[OF j(2,1)] obtain p s caps where
    r: "(p, s, caps) \<in> set (ms pythonPattern (prevChar content j, drop j content, []))"
       "m_index m = j" by blast
  from pythonPattern_start[OF r(1)] obtain x xs where
    b: "prevChar content j = None \<or> (\<exists>y. prevChar content j = Some y \<and> isLineTerminator y)"
    and d: "drop j content = x # xs" "\<not> isSpace x" by blast
  from d have x: "x \<noteq> newline" by (auto simp: isSpace_def newline_def)
  have start: "j = 0 \<or> content ! (j - 1) = newline"
  proof (cases "j = 0")
    case False
    with b j(1) have "isLineTerminator (content ! (j - 1))" by (auto simp: prevChar_def)
    moreover from False j(1) have "content ! (j - 1) \<in> set content" by simp
    ultimately show ?thesis using assms(2) by (auto simp: isLineTerminator_def newline_def)
  qed simp
  define sl where "sl = lineNumberAt content j"
  have sl: "1 \<le> sl" "sl \<le> length (splitNl content)"
    using lineNumberAt_ge1[of content j] lineNumberAt_le[of content j] by (simp_all add: sl_def)
  from line_at_line_start[OF j(1) start] d x
  have "splitNl content ! (sl - 1) = x # takeWhile (\<lambda>c. c \<noteq> newline) xs"
    by (simp add: sl_def)
  with d(2) have "indentOf (splitNl content ! (sl - 1)) = 0" by (simp add: indentOf_nonspace)
  with sl have "\<not> isPythonMethod (splitNl content) (sl - 1)"
    by (simp add: isPythonMethod_def lineOrEmpty_def Let_def)
  then show ?thesis
    by (simp add: pythonChunk_def Let_def r(2) sl_def[symmetric])
qed

lemma python_method_needs_carriage_return:
  assumes "CHR 0x0D \<notin> set content" and "c \<in> set (parsePython content path)"
  shows "chunkType c = Class \<or> chunkType c = Function"
proof -
  from assms(2) obtain m where m: "m \<in> set (pythonMatches content 0)"
    and c: "c = pythonChunk content path (splitNl content) m"
    by (auto simp: parsePython_def)
  from pythonChunk_not_method[OF m assms(1), of path] c
  have "chunkType c \<noteq> Method" by simp
  moreover have "chunkType c = Class \<or> chunkType c = Method \<or> chunkType c = Function"
    unfolding c by (simp add: pythonChunk_def Let_def)
  ultimately show ?thesis by blast
qed

text \<open>
  Without triple quotes at the start of the line after the header there is no
  docstring.
\<close>

lemma docstring_absent:
  assumes \<open>\<not> prefix ''"""'' (trim (lineOrEmpty lines startLn))\<close>
    and "\<not> prefix [singleQuote, singleQuote, singleQuote] (trim (lineOrEmpty lines startLn))"
    and "1 \<le> startLn"
  shows "b_docstring (findPythonBlockEnd lines startLn) = None"
proof -
  from assms(3) obtain k where k: "startLn = Suc k" by (cases startLn) auto
  have t: "trim [] = []" by (simp add: trim_def trimEnd_def trimStart_def)
  show ?thesis using assms(1,2) unfolding k
    by (auto simp: findPythonBlockEnd_def Let_def lineOrEmpty_def t split: if_splits)
qed


text \<open>
  The brace scan, step by step: inside a string the depth and the flag
  \<open>firstBraceFound\<close> do not change, and a quote after a backslash does not end the
  string; the loop returns at the first position from \<open>i\<close> on after which a brace has
  been seen and the depth is zero.
\<close>

lemma scanStep_in_string:
  "inString st = Some q \<Longrightarrow>
     openBraces (scanStep ch st) = openBraces st
     \<and> firstBraceFound (scanStep ch st) = firstBraceFound st"
  by (simp add: scanStep_def)

lemma scanStep_escaped_quote:
  "inString st = Some q \<Longrightarrow> escape st \<Longrightarrow> inString (scanStep q st) = Some q"
  by (simp add: scanStep_def)

lemma scanLoop_first:
  "scanLoop content i st = Some j \<Longrightarrow>
     i \<le> j \<and> j < length content
     \<and> firstBraceFound (fold scanStep (take (Suc j - i) (drop i content)) st)
     \<and> openBraces (fold scanStep (take (Suc j - i) (drop i content)) st) = 0
     \<and> (\<forall>k. i \<le> k \<and> k < j \<longrightarrow>
            \<not> (firstBraceFound (fold scanStep (take (Suc k - i) (drop i content)) st)
               \<and> openBraces (fold scanStep (take (Suc k - i) (drop i content)) st) = 0))"
proof (induction content i st rule: scanLoop.induct)
  case (1 content i st)
  show ?case
  proof (cases "i < length content")
    case False
    with "1.prems" show ?thesis by (simp add: scanLoop.simps[of content i st])
  next
    case True
    then have d: "drop i content = content ! i # drop (Suc i) content"
      by (simp add: Cons_nth_drop_Suc)
    let ?st = "scanStep (content ! i) st"
    show ?thesis
    proof (cases "firstBraceFound ?st \<and> openBraces ?st = 0")
      case t: True
      with True "1.prems" have "j = i"
        by (simp add: scanLoop.simps[of content i st] Let_def)
      with t True d show ?thesis by auto
    next
      case False
      with True "1.prems" have r: "scanLoop content (Suc i) ?st = Some j"
        by (auto simp: scanLoop.simps[of content i st] Let_def)
      note IH = "1.IH"[OF True refl False r]
      from IH have j: "Suc i \<le> j" "j < length content" by simp_all
      have step: "\<And>k. i < k \<Longrightarrow>
          fold scanStep (take (Suc k - i) (drop i content)) st
            = fold scanStep (take (Suc k - Suc i) (drop (Suc i) content)) ?st"
      proof -
        fix k assume "i < k"
        then have "Suc k - i = Suc (Suc k - Suc i)" by simp
        then show "fold scanStep (take (Suc k - i) (drop i content)) st
            = fold scanStep (take (Suc k - Suc i) (drop (Suc i) content)) ?st"
          by (simp add: d)
      qed
      have "\<forall>k. i \<le> k \<and> k < j \<longrightarrow>
            \<not> (firstBraceFound (fold scanStep (take (Suc k - i) (drop i content)) st)
               \<and> openBraces (fold scanStep (take (Suc k - i) (drop i content)) st) = 0)"
      proof (intro allI impI)
        fix k assume k: "i \<le> k \<and> k < j"
        show "\<not> (firstBraceFound (fold scanStep (take (Suc k - i) (drop i content)) st)
               \<and> openBraces (fold scanStep (take (Suc k - i) (drop i content)) st) = 0)"
        proof (cases "k = i")
          case True
          with False d show ?thesis by simp
        next
          case False
          with k have "i < k" "Suc i \<le> k \<and> k < j" by simp_all
          with IH step[of k] show ?thesis by simp
        qed
      qed
      moreover from j have "i < j" by simp
      ultimately show ?thesis using IH step[of j] j by simp
    qed
  qed
qed


text \<open>
  The documentation of a JavaScript/TypeScript block is \<open>null\<close> unless the text before
  the match ends with \<open>*/\<close>.
\<close>

lemma docPattern_end:
  assumes "(p', s', c') \<in> set (ms docPattern (p, s, c))"
  shows "s' = [] \<and> suffix ''*/'' s"
proof -
  from assms obtain p1 s1 c1 p2 s2 c2 p3 s3 c3 where
    1: "(p1, s1, c1) \<in> set (ms (Lit ''/**'') (p, s, c))"
    and 2: "(p2, s2, c2) \<in> set (ms (Grp 1 (LazyStar anyChar)) (p1, s1, c1))"
    and 3: "(p3, s3, c3) \<in> set (ms (Lit ''*/'') (p2, s2, c2))"
    and 4: "(p', s', c') \<in> set (ms Eoi (p3, s3, c3))"
    unfolding docPattern_def seqs.simps by (elim ms_SeqE)
  from 4 have e: "s' = []" "s3 = []" by (auto split: if_splits)
  from 3 e have "s2 = ''*/''" by (auto split: if_splits simp: prefix_def)
  moreover from ms_suffix[OF 1] ms_suffix[OF 2] have "suffix s2 s"
    by (meson suffix_order.trans)
  ultimately show ?thesis using e by simp
qed

lemma jsDocstring_needs_comment_end:
  assumes "\<not> suffix ''*/'' (take startPos content)"
  shows "jsDocstring content startPos = None"
proof (cases "rxExec docPattern (take startPos content) 0")
  case None
  then show ?thesis by (simp add: jsDocstring_def)
next
  case (Some m)
  from rxExec_matchAt[OF Some] obtain j where
    j: "j \<le> length (take startPos content)" "matchAt docPattern (take startPos content) j = Some m"
    by blast
  from matchAt_result[OF j(2,1)] obtain p s caps where
    r: "(p, s, caps) \<in> set (ms docPattern (prevChar (take startPos content) j,
          drop j (take startPos content), []))" by blast
  from docPattern_end[OF r] have "suffix ''*/'' (drop j (take startPos content))" by simp
  then have "suffix ''*/'' (take startPos content)"
    by (meson suffix_drop suffix_order.trans)
  with assms show ?thesis by simp
qed

text \<open>
  The fallback of \<open>_findJSBlockEnd\<close>: when no \<open>}\<close> follows the start of the match, or
  the scan does not see the depth return to zero, the chunk's \<open>endLine\<close> is the last line
  of the file and its code is the file's text from some line \<open>k + 1 \<ge> startLine\<close> to the
  end. \<open>openStringSample\<close> is such a case: its only \<open>}\<close> stands in a string that is
  never closed.
\<close>

lemma fallback_runs_to_eof:
  assumes "m \<in> set (jsMatches content 0)"
    and "CHR ''}'' \<notin> set (drop (m_index m) content)
         \<or> scanLoop content (findOpenBrace content (m_index m)) scanInit = None"
  shows "endLine (jsChunk content path lang (splitNl content) m) = length (splitNl content)
     \<and> (\<exists>k. startLine (jsChunk content path lang (splitNl content) m) - 1 \<le> k
            \<and> k < length (splitNl content)
            \<and> code (jsChunk content path lang (splitNl content) m)
                = joinNl (drop k (splitNl content)))
     \<and> suffix (code (jsChunk content path lang (splitNl content) m)) content"
proof -
  define i where "i = findOpenBrace content (m_index m)"
  define k where "k = (if i < length content then lineNumberAt content i - 1
                       else lineNumberAt content (m_index m) - 1)"
  from findOpenBrace_first[of "m_index m" content] have i: "m_index m \<le> i" by (simp add: i_def)
  have none: "scanLoop content i scanInit = None"
  proof (cases "CHR ''}'' \<notin> set (drop (m_index m) content)")
    case True
    from i have "set (drop i content) \<subseteq> set (drop (m_index m) content)"
      by (rule set_drop_subset_set_drop)
    with True have "CHR ''}'' \<notin> set (drop i content)" by blast
    then show ?thesis by (rule scanLoop_no_close) (simp add: scanInit_def)
  next
    case False
    with assms(2) show ?thesis by (simp add: i_def)
  qed
  have E: "endLine (jsChunk content path lang (splitNl content) m) = length (splitNl content)"
    and C: "code (jsChunk content path lang (splitNl content) m) = joinNl (drop k (splitNl content))"
    and S: "startLine (jsChunk content path lang (splitNl content) m)
              = lineNumberAt content (m_index m)"
    using none
    by (simp_all add: jsChunk_def findJSBlockEnd_def Let_def i_def[symmetric] k_def sliceFrom_def)
  have k1: "lineNumberAt content (m_index m) - 1 \<le> k"
    using lineNumberAt_mono[OF i, of content] by (auto simp: k_def intro: diff_le_mono)
  have "k < lineNumberAt content i"
    using lineNumberAt_ge1[of content i] lineNumberAt_ge1[of content "m_index m"]
      lineNumberAt_mono[OF i, of content]
    by (auto simp: k_def)
  with lineNumberAt_le[of content i] have k2: "k < length (splitNl content)" by simp
  from joinNl_drop_suffix[OF k2] have "suffix (joinNl (drop k (splitNl content))) content"
    by (simp add: joinNl_splitNl)
  with E C S k1 k2 show ?thesis by auto
qed

lemma unterminated_string_runs_to_eof:
  "length (splitNl openStringSample) = 2
   \<and> map (\<lambda>c. (name c, startLine c, endLine c, code c))
        (parseJavaScriptTypeScript openStringSample ''a.js'' Javascript)
       = [(''f'', 1, 2, openStringSample)]"
  by code_simp

section \<open>Properties of the directory parser\<close>







lemma parseFiles_first_failure:
  assumes "SUPPORTED_EXTENSIONS (extname p) \<noteq> None"
    and "\<forall>(q, r) \<in> set pre. SUPPORTED_EXTENSIONS (extname q) \<noteq> None \<longrightarrow> (\<exists>content. r = Inr content)"
  shows "parseFiles extname (pre @ (p, Inl e) # post) acc
           = Inl (''Failed to read or parse file '' @ p @ '': '' @ e)"
  using assms
proof (induction pre arbitrary: acc)
  case Nil
  then show ?case by auto
next
  case (Cons f pre)
  obtain path r where f: "f = (path, r)" by (cases f)
  show ?case
  proof (cases "SUPPORTED_EXTENSIONS (extname path)")
    case None
    with Cons f show ?thesis by simp
  next
    case (Some lang)
    with Cons.prems f obtain content where "r = Inr content" by auto
    with Cons f Some show ?thesis by simp
  qed
qed

lemma first_failure_split:
  assumes "(path, Inl cause) \<in> set files" and "SUPPORTED_EXTENSIONS (extname path) \<noteq> None"
  shows "\<exists>pre p e post. files = pre @ (p, Inl e) # post
           \<and> SUPPORTED_EXTENSIONS (extname p) \<noteq> None
           \<and> (\<forall>(q, r) \<in> set pre. SUPPORTED_EXTENSIONS (extname q) \<noteq> None \<longrightarrow> (\<exists>content. r = Inr content))"
  using assms
proof (induction files)
  case Nil
  then show ?case by simp
next
  case (Cons f files)
  obtain q r where f: "f = (q, r)" by (cases f)
  show ?case
  proof (cases "SUPPORTED_EXTENSIONS (extname q) \<noteq> None \<and> (\<exists>e. r = Inl e)")
    case True
    then obtain e where "r = Inl e" by auto
    with True f have "f # files = [] @ (q, Inl e) # files" by simp
    with True show ?thesis by (metis empty_iff empty_set)
  next
    case False
    with Cons.prems f have "(path, Inl cause) \<in> set files" by auto
    from Cons.IH[OF this Cons.prems(2)] obtain pre p e post where
      s: "files = pre @ (p, Inl e) # post" "SUPPORTED_EXTENSIONS (extname p) \<noteq> None"
      "\<forall>(q, r) \<in> set pre. SUPPORTED_EXTENSIONS (extname q) \<noteq> None \<longrightarrow> (\<exists>content. r = Inr content)"
      by blast
    from False f have ok: "SUPPORTED_EXTENSIONS (extname q) \<noteq> None \<longrightarrow> (\<exists>content. r = Inr content)"
      by (cases r) auto
    from s(1) f have "f # files = ((q, r) # pre) @ (p, Inl e) # post" by simp
    moreover from s(3) ok have "\<forall>(q', r') \<in> set ((q, r) # pre).
        SUPPORTED_EXTENSIONS (extname q') \<noteq> None \<longrightarrow> (\<exists>content. r' = Inr content)" by auto
    ultimately show ?thesis using s(2) by blast
  qed
qed

section \<open>The claims\<close>





text \<open>
  Claim C2 (a defect of the code). A \<open>function\<close> declaration with a JSDoc block right
  before it gets no documentation: the pattern takes the comment into the match, so
  the match starts at \<open>/**\<close> (index 0 below), the text before the match does not end
  with the comment, and \<open>docString\<close> is \<open>null\<close>. In \<open>jsdocSample\<close> the scan for the
  block even starts inside the comment and ends at the braces of \<open>{number}\<close>. (The
  second half of the claim holds: by \<open>jsDocstring_needs_comment_end\<close> there is no
  documentation unless a comment ends exactly where the match starts.)
\<close>

theorem jsdoc_before_function_is_lost:
  "map m_index (jsMatches jsdocSample 0) = [0]
   \<and> map (\<lambda>c. (name c, startLine c, endLine c, docString c, code c))
        (parseJavaScriptTypeScript jsdocSample ''test.js'' Javascript)
       = [(''add'', 1, 3, None, '' * @returns {number} Sum'')]
   \<and> map m_index (jsMatches jsdocTightSample 0) = [0]
   \<and> map (\<lambda>c. (name c, docString c))
        (parseJavaScriptTypeScript jsdocTightSample ''test.js'' Javascript)
       = [(''add'', None)]"
  by code_simp

text \<open>
  Claim C3 (a defect of the code). The loop that looks for the closing quotes starts
  at the line of the opening quotes, which includes them, so it always stops there:
  of a docstring over two lines only the first line is kept, and a docstring that is
  never closed still gives a \<open>docString\<close>. (\<open>docstring_is_one_line\<close> says so for
  every block; the last part of the claim holds by \<open>docstring_absent\<close>.)
\<close>

theorem docstring_stops_at_first_line:
  \<open>map (\<lambda>c. (name c, docString c)) (parsePython docstringSample ''test.py'')
     = [(''with_docstring'', Some ''This is a docstring'')]
   \<and> map (\<lambda>c. (name c, docString c)) (parsePython openDocstringSample ''test.py'')
     = [(''g'', Some ''never closed'')]\<close>
  by code_simp

text \<open>
  Claim C4 (a defect of the code). The pattern anchors \<open>def\<close>, \<open>async def\<close> and \<open>class\<close>
  at the start of a line with no indentation allowed, so a \<open>def\<close> nested under a class
  header is not matched and yields no chunk at all, and no chunk of kind \<open>method\<close>: the
  class with one method gives the class chunk only, and Scenario A gives the class and
  the top-level function, not the method. (By \<open>python_method_needs_carriage_return\<close>
  no file without carriage returns has a chunk of kind \<open>method\<close>.)
\<close>

theorem nested_def_is_not_matched:
  "map (\<lambda>c. (chunkType c, name c, startLine c)) (parsePython methodSample ''main.py'')
     = [(Class, ''A'', 1)]
   \<and> map (\<lambda>c. (chunkType c, name c, startLine c)) (parsePython scenarioA ''main.py'')
     = [(Class, ''C'', 1), (Function, ''top'', 6)]"
  by code_simp

text \<open>
  Claim C5 (a defect of the code). The search for the first opening brace does not
  track strings. In \<open>braceStringSample\<close> it stops at position 16, the brace between
  the double quotes at 15 and 17; the scan starts there outside any string, counts that
  brace (the depth goes from 0 to 1), takes the closing quote for an opening one and
  runs to the end of the file: the chunk of \<open>f\<close> ends at line 4. Started at the match
  position, the same scan returns at position 22, on line 2. (The loop itself does what
  the claim says, see \<open>scanStep_in_string\<close>, \<open>scanStep_escaped_quote\<close> and
  \<open>scanLoop_first\<close>; the defect is where it starts.)
\<close>

theorem brace_in_string_is_counted:
  "findOpenBrace braceStringSample 0 = 16
   \<and> (braceStringSample ! 15, braceStringSample ! 16, braceStringSample ! 17)
       = (doubleQuote, CHR ''{'', doubleQuote)
   \<and> openBraces scanInit = 0
   \<and> openBraces (scanStep (braceStringSample ! 16) scanInit) = 1
   \<and> scanLoop braceStringSample (findOpenBrace braceStringSample 0) scanInit = None
   \<and> scanLoop braceStringSample 0 scanInit = Some 22
   \<and> lineNumberAt braceStringSample (22 + 1) = 2
   \<and> map (\<lambda>c. (name c, startLine c, endLine c))
        (parseJavaScriptTypeScript braceStringSample ''a.js'' Javascript)
       = [(''f'', 1, 4), (''g'', 3, 4)]"
  by code_simp

text \<open>
  Claim C6, as amended. For a declaration on line \<open>startLn\<close> the block runs from that
  line to \<open>endLine\<close>, where \<open>endLine\<close> is the declaration line itself or a non-blank line
  indented more than the declaration; every line of the block after the declaration is
  blank or indented more than the declaration; and the first non-blank line after
  \<open>endLine\<close>, if there is one, is indented at or below the declaration. So the block ends
  at the last non-blank line before the first non-blank line at or below the
  declaration's indentation (or before the end of the file); the blank lines inside are
  part of the code, the blank lines after \<open>endLine\<close> are not. (Lines are indexed from 0:
  line \<open>n\<close> is \<open>lines ! (n - 1)\<close>.)
\<close>

theorem python_block_extent:
  assumes "1 \<le> startLn" and "startLn \<le> length lines"
  shows "startLn \<le> b_endLine (findPythonBlockEnd lines startLn)
     \<and> b_endLine (findPythonBlockEnd lines startLn) \<le> length lines
     \<and> (b_endLine (findPythonBlockEnd lines startLn) = startLn
          \<or> \<not> blank (lines ! (b_endLine (findPythonBlockEnd lines startLn) - 1))
            \<and> indentOf (lines ! (startLn - 1))
                < indentOf (lines ! (b_endLine (findPythonBlockEnd lines startLn) - 1)))
     \<and> (\<forall>k. startLn \<le> k \<and> k < b_endLine (findPythonBlockEnd lines startLn) \<longrightarrow>
            blank (lines ! k) \<or> indentOf (lines ! (startLn - 1)) < indentOf (lines ! k))
     \<and> (\<forall>j. b_endLine (findPythonBlockEnd lines startLn) \<le> j \<and> j < length lines
            \<and> \<not> blank (lines ! j)
            \<and> (\<forall>k. b_endLine (findPythonBlockEnd lines startLn) \<le> k \<and> k < j
                   \<longrightarrow> blank (lines ! k))
            \<longrightarrow> indentOf (lines ! j) \<le> indentOf (lines ! (startLn - 1)))
     \<and> b_blockCode (findPythonBlockEnd lines startLn)
         = joinNl (map ((!) lines) [startLn - 1 ..< b_endLine (findPythonBlockEnd lines startLn)])"
proof -
  define ind where "ind = indentOf (lines ! (startLn - 1))"
  define e where "e = pyEndLoop lines ind startLn startLn"
  from assms have i: "startLn - 1 < length lines" "startLn - 1 + 1 = startLn" by simp_all
  have E: "b_endLine (findPythonBlockEnd lines startLn) = e"
    using i by (simp add: findPythonBlockEnd_def Let_def e_def ind_def length_takeWhile_indentOf)
  have C: "b_blockCode (findPythonBlockEnd lines startLn) = joinNl (slice lines (startLn - 1) e)"
    using i by (simp add: findPythonBlockEnd_def Let_def e_def ind_def length_takeWhile_indentOf)
  from pyEndLoop_bounds[of startLn startLn lines ind] assms
  have b: "startLn \<le> e" "e \<le> length lines" by (simp_all add: e_def)
  have mx: "max startLn e = e" using b by simp
  have sp: "(e = startLn
           \<or> startLn < e \<and> e \<le> length lines
             \<and> \<not> blank (lines ! (e - 1)) \<and> ind < indentOf (lines ! (e - 1)))
       \<and> (\<forall>k. startLn \<le> k \<and> k < e \<longrightarrow> blank (lines ! k) \<or> ind < indentOf (lines ! k))
       \<and> (\<forall>j. max startLn e \<le> j \<and> j < length lines \<and> \<not> blank (lines ! j)
              \<and> (\<forall>k. max startLn e \<le> k \<and> k < j \<longrightarrow> blank (lines ! k))
              \<longrightarrow> indentOf (lines ! j) \<le> ind)"
    unfolding e_def by (rule pyEndLoop_spec) simp
  from sp have s1: "e = startLn \<or> \<not> blank (lines ! (e - 1)) \<and> ind < indentOf (lines ! (e - 1))"
    by blast
  from sp have s2: "\<forall>k. startLn \<le> k \<and> k < e \<longrightarrow> blank (lines ! k) \<or> ind < indentOf (lines ! k)"
    by blast
  from sp have s3: "\<forall>j. e \<le> j \<and> j < length lines \<and> \<not> blank (lines ! j)
        \<and> (\<forall>k. e \<le> k \<and> k < j \<longrightarrow> blank (lines ! k)) \<longrightarrow> indentOf (lines ! j) \<le> ind"
    unfolding mx by blast
  note s = s1 s2 s3
  from C b(2) have "b_blockCode (findPythonBlockEnd lines startLn)
         = joinNl (map ((!) lines) [startLn - 1 ..< e])"
    by (simp add: slice_nth)
  with b s show ?thesis unfolding E ind_def by blast
qed


text \<open>
  Claim C6, a witness of the amended statement on \<open>pyDedentSample\<close>: the block of
  line 1 ends at line 2, before the blank line 3 and the statement of line 4.
\<close>

theorem python_block_extent_witness:
  "(1::nat) \<le> 1 \<and> 1 \<le> length (splitNl pyDedentSample)
   \<and> b_endLine (findPythonBlockEnd (splitNl pyDedentSample) 1) = 2
   \<and> \<not> blank (splitNl pyDedentSample ! 1)
   \<and> indentOf (splitNl pyDedentSample ! 0) < indentOf (splitNl pyDedentSample ! 1)
   \<and> blank (splitNl pyDedentSample ! 2)
   \<and> \<not> blank (splitNl pyDedentSample ! 3)
   \<and> indentOf (splitNl pyDedentSample ! 3) \<le> indentOf (splitNl pyDedentSample ! 0)
   \<and> b_blockCode (findPythonBlockEnd (splitNl pyDedentSample) 1) = ''def f():\<newline>    pass''"
proof -
  have h1: "(1::nat) \<le> 1" by simp
  have h2: "1 \<le> length (splitNl pyDedentSample)" by code_simp
  have e: "b_endLine (findPythonBlockEnd (splitNl pyDedentSample) 1) = 2" by code_simp
  have b2: "blank (splitNl pyDedentSample ! 2)" by code_simp
  have b3: "\<not> blank (splitNl pyDedentSample ! 3)" by code_simp
  have l: "length (splitNl pyDedentSample) = 4" by code_simp
  have c: "joinNl (map ((!) (splitNl pyDedentSample)) [1 - 1 ..< 2]) = ''def f():\<newline>    pass''"
    by code_simp
  note t = python_block_extent[OF h1 h2]
  from t e have "\<not> blank (splitNl pyDedentSample ! (2 - 1))
      \<and> indentOf (splitNl pyDedentSample ! (1 - 1)) < indentOf (splitNl pyDedentSample ! (2 - 1))"
    by auto
  then have p1: "\<not> blank (splitNl pyDedentSample ! 1)"
    "indentOf (splitNl pyDedentSample ! 0) < indentOf (splitNl pyDedentSample ! 1)"
    by simp_all
  from t e have "\<forall>j. 2 \<le> j \<and> j < length (splitNl pyDedentSample)
            \<and> \<not> blank (splitNl pyDedentSample ! j)
            \<and> (\<forall>k. 2 \<le> k \<and> k < j \<longrightarrow> blank (splitNl pyDedentSample ! k))
            \<longrightarrow> indentOf (splitNl pyDedentSample ! j) \<le> indentOf (splitNl pyDedentSample ! (1 - 1))"
    by simp
  moreover have "\<forall>k. 2 \<le> k \<and> k < 3 \<longrightarrow> blank (splitNl pyDedentSample ! k)"
  proof (intro allI impI)
    fix k :: nat assume "2 \<le> k \<and> k < 3"
    then have "k = 2" by simp
    with b2 show "blank (splitNl pyDedentSample ! k)" by simp
  qed
  ultimately have p3: "indentOf (splitNl pyDedentSample ! 3) \<le> indentOf (splitNl pyDedentSample ! 0)"
    using b3 l by force
  from t e c have p4: "b_blockCode (findPythonBlockEnd (splitNl pyDedentSample) 1)
      = ''def f():\<newline>    pass''" by simp
  from h1 h2 e p1 b2 b3 p3 p4 show ?thesis by blast
qed

text \<open>
  Claim C6, the counterexample to the claim as stated. In \<open>pyDedentSample\<close> the first
  non-blank line at or below the indentation of the declaration is line 4, so the
  last line before it is line 3 (\<open>claimedEndLine\<close>); the chunk ends at line 2.
\<close>

theorem python_block_extent_counterexample:
  "splitNl pyDedentSample = [''def f():'', ''    pass'', [], ''x = 1'']
   \<and> claimedEndLine (splitNl pyDedentSample) 1 = 3
   \<and> b_endLine (findPythonBlockEnd (splitNl pyDedentSample) 1) = 2
   \<and> map (\<lambda>c. (name c, startLine c, endLine c, code c)) (parsePython pyDedentSample ''a.py'')
       = [(''f'', 1, 2, ''def f():\<newline>    pass'')]"
  by code_simp





text \<open>
  Claim C8. When the enumeration holds a file with a supported extension whose read
  fails, \<open>parseDirectory\<close> returns no chunks but one error, whose message is
  \<open>Failed to read or parse file\<close>, the path of the first such file in enumeration
  order, and the cause as \<open>${e}\<close> prints it. (The extractors are total functions of the
  content: a parse cannot fail, so a failing read is the only way into the \<open>catch\<close>.)
\<close>

theorem read_failure_aborts:
  assumes "getAllFiles join directory root = Inr files"
    and "(path, Inl cause) \<in> set files"
    and "SUPPORTED_EXTENSIONS (extname path) \<noteq> None"
  shows "\<exists>pre p e post. files = pre @ (p, Inl e) # post
           \<and> SUPPORTED_EXTENSIONS (extname p) \<noteq> None
           \<and> (\<forall>(q, r) \<in> set pre. SUPPORTED_EXTENSIONS (extname q) \<noteq> None
                  \<longrightarrow> (\<exists>content. r = Inr content))
           \<and> parseDirectory extname join directory root
               = Inl (''Failed to read or parse file '' @ p @ '': '' @ e)"
proof -
  from first_failure_split[where extname = extname and path = path, OF assms(2,3)] obtain pre p e post where
    s: "files = pre @ (p, Inl e) # post" "SUPPORTED_EXTENSIONS (extname p) \<noteq> None"
      "\<forall>(q, r) \<in> set pre. SUPPORTED_EXTENSIONS (extname q) \<noteq> None \<longrightarrow> (\<exists>content. r = Inr content)"
    by blast
  from parseFiles_first_failure[where extname = extname and p = p and pre = pre, OF s(2,3), of e post "[]"] s(1) assms(1)
  have "parseDirectory extname join directory root
               = Inl (''Failed to read or parse file '' @ p @ '': '' @ e)"
    by (simp add: parseDirectory_def)
  with s show ?thesis by blast
qed


text \<open>
  Claim C8, a witness: of three Python files the second and the third cannot be read;
  the error names the second, and the chunk of the first is not returned.
\<close>

theorem read_failure_aborts_witness:
  "getAllFiles sampleJoin ''root'' tree1 = Inr files1
   \<and> (''root/c.py'', Inl ''Error: EISDIR'') \<in> set files1
   \<and> SUPPORTED_EXTENSIONS (sampleExtname ''root/c.py'') \<noteq> None
   \<and> (\<exists>pre p e post. files1 = pre @ (p, Inl e) # post
           \<and> SUPPORTED_EXTENSIONS (sampleExtname p) \<noteq> None
           \<and> (\<forall>(q, r) \<in> set pre. SUPPORTED_EXTENSIONS (sampleExtname q) \<noteq> None
                  \<longrightarrow> (\<exists>content. r = Inr content))
           \<and> parseDirectory sampleExtname sampleJoin ''root'' tree1
               = Inl (''Failed to read or parse file '' @ p @ '': '' @ e))
   \<and> parseDirectory sampleExtname sampleJoin ''root'' tree1
       = Inl ''Failed to read or parse file root/b.py: Error: EACCES: permission denied''"
proof -
  have h1: "getAllFiles sampleJoin ''root'' tree1 = Inr files1" by code_simp
  have h2: "(''root/c.py'', Inl ''Error: EISDIR'') \<in> set files1" by (simp add: files1_def)
  have h3: "SUPPORTED_EXTENSIONS (sampleExtname ''root/c.py'') \<noteq> None" by code_simp
  have r: "parseDirectory sampleExtname sampleJoin ''root'' tree1
       = Inl ''Failed to read or parse file root/b.py: Error: EACCES: permission denied''"
    by code_simp
  from read_failure_aborts[where extname = sampleExtname and path = "''root/c.py''", OF h1 h2 h3] h1 h2 h3 r show ?thesis by blast
qed

text \<open>
  Claim C9 (a defect of the code). No step of the block finder raises, but the search
  for the opening brace runs on through the rest of the file, so an arrow function
  without braces that is followed by a later pair of braces does not reach the
  fallback written for it: the braces of the next declaration are taken as its block.
  In \<open>oneLinerSample\<close> (4 lines) the first \<open>{\<close> after the match of \<open>simple\<close> is at
  position 40, on line 2, the scan returns at the \<open>}\<close> of line 3, and the chunk of
  \<open>simple\<close> ends at line 3 with the function \<open>g\<close> as its code; in the repository's own
  test content (9 lines) it ends at line 5 and its code is the arrow function
  \<open>withParams\<close>. The claim gives \<open>endLine\<close> the last line and the code running to the end
  of the file. (Where no \<open>}\<close> follows the match, or none is accepted by the scan, the
  fallback is taken: \<open>fallback_runs_to_eof\<close>, \<open>unterminated_string_runs_to_eof\<close>.)
\<close>

theorem bodyless_one_liner_takes_next_block:
  "length (splitNl oneLinerSample) = 4
   \<and> findOpenBrace oneLinerSample 0 = 40
   \<and> lineNumberAt oneLinerSample 40 = 2
   \<and> scanLoop oneLinerSample 40 scanInit = Some 42
   \<and> map (\<lambda>c. (name c, startLine c, endLine c, code c))
        (parseJavaScriptTypeScript oneLinerSample ''arrows.js'' Javascript)
       = [(''simple'', 1, 3, ''function g() {\<newline>}''), (''g'', 2, 3, ''function g() {\<newline>}'')]
   \<and> endLine (hd (parseJavaScriptTypeScript oneLinerSample ''arrows.js'' Javascript))
       \<noteq> length (splitNl oneLinerSample)
   \<and> \<not> suffix (code (hd (parseJavaScriptTypeScript oneLinerSample ''arrows.js'' Javascript)))
          oneLinerSample
   \<and> length (splitNl arrowsSample) = 9
   \<and> map (\<lambda>c. (name c, chunkType c, startLine c, endLine c))
        (parseJavaScriptTypeScript arrowsSample ''arrows.js'' Javascript)
       = [(''simple'', ArrowFunction, 1, 5), (''withParams'', ArrowFunction, 3, 5),
          (''exported'', ArrowFunction, 7, 9)]
   \<and> code (hd (parseJavaScriptTypeScript arrowsSample ''arrows.js'' Javascript))
       = ''const withParams = (a, b) => {\<newline>    return a + b;\<newline>};''"
  by code_simp

text \<open>
  Claim C10, as amended. Every chunk's name is captured from the declaration and the
  fallback \<open>'unknown'\<close> is never taken: for every match of the Python pattern group 2
  is an identifier, part of the matched text, and it is the chunk's name; for every
  match of the JavaScript/TypeScript pattern group 3, or group 5 when group 3 took no
  part, is a non-empty run of letters, digits and underscores, part of the matched
  text, and it is the chunk's name. A JavaScript/TypeScript name may start with a
  digit, so it need not be an identifier.
\<close>

theorem names_are_captured:
  "(\<forall>m \<in> set (pythonMatches content 0).
      \<exists>n. group m 2 = Some n \<and> isIdentifier n
          \<and> sublist n (m_text m) \<and> name (pythonChunk content path lines m) = n)
   \<and> (\<forall>m \<in> set (jsMatches content 0).
      \<exists>n. (group m 3 = Some n \<or> group m 3 = None \<and> group m 5 = Some n)
          \<and> n \<noteq> [] \<and> list_all isWordChar n
          \<and> sublist n (m_text m) \<and> name (jsChunk content path lang lines m) = n)
   \<and> (\<forall>c \<in> set (parsePython content path). isIdentifier (name c))
   \<and> (\<forall>c \<in> set (parseJavaScriptTypeScript content path lang).
         name c \<noteq> [] \<and> list_all isWordChar (name c))"
proof (intro conjI ballI)
  fix m assume "m \<in> set (pythonMatches content 0)"
  from pythonMatch_name[OF this, of path lines]
  show "\<exists>n. group m 2 = Some n \<and> isIdentifier n
          \<and> sublist n (m_text m) \<and> name (pythonChunk content path lines m) = n"
    unfolding isIdentifier_def by (blast intro: suffix_imp_sublist)
next
  fix m assume "m \<in> set (jsMatches content 0)"
  from jsMatch_name[OF this, of path lang lines]
  show "\<exists>n. (group m 3 = Some n \<or> group m 3 = None \<and> group m 5 = Some n)
          \<and> n \<noteq> [] \<and> list_all isWordChar n
          \<and> sublist n (m_text m) \<and> name (jsChunk content path lang lines m) = n"
    by blast
next
  fix c assume "c \<in> set (parsePython content path)"
  then obtain m where "m \<in> set (pythonMatches content 0)"
    "c = pythonChunk content path (splitNl content) m"
    by (auto simp: parsePython_def)
  with pythonMatch_name[of m content 0 path "splitNl content"]
  show "isIdentifier (name c)" unfolding isIdentifier_def by auto
next
  fix c assume "c \<in> set (parseJavaScriptTypeScript content path lang)"
  then obtain m where "m \<in> set (jsMatches content 0)"
    "c = jsChunk content path lang (splitNl content) m"
    by (auto simp: parseJavaScriptTypeScript_def)
  with jsMatch_name[of m content 0 path lang "splitNl content"]
  show "name c \<noteq> []" "list_all isWordChar (name c)" by auto
qed

text \<open>
  Claim C10, a witness of the amended statement: an \<open>async def\<close> and an exported arrow
  function that is itself called \<open>unknown\<close>.
\<close>

theorem names_are_captured_witness:
  "pyNameMatch \<in> set (pythonMatches pyNameSample 0)
   \<and> (\<exists>n. group pyNameMatch 2 = Some n \<and> isIdentifier n
          \<and> sublist n (m_text pyNameMatch)
          \<and> name (pythonChunk pyNameSample ''a.py'' (splitNl pyNameSample) pyNameMatch) = n)
   \<and> name (pythonChunk pyNameSample ''a.py'' (splitNl pyNameSample) pyNameMatch) = ''fetch_all''
   \<and> jsNameMatch \<in> set (jsMatches jsNameSample 0)
   \<and> (\<exists>n. (group jsNameMatch 3 = Some n \<or> group jsNameMatch 3 = None \<and> group jsNameMatch 5 = Some n)
          \<and> n \<noteq> [] \<and> list_all isWordChar n \<and> sublist n (m_text jsNameMatch)
          \<and> name (jsChunk jsNameSample ''a.js'' Javascript (splitNl jsNameSample) jsNameMatch) = n)
   \<and> name (jsChunk jsNameSample ''a.js'' Javascript (splitNl jsNameSample) jsNameMatch) = ''unknown''
   \<and> group jsNameMatch 5 = Some ''unknown''"
proof -
  have h1: "pyNameMatch \<in> set (pythonMatches pyNameSample 0)" by code_simp
  have h2: "jsNameMatch \<in> set (jsMatches jsNameSample 0)" by code_simp
  have e1: "name (pythonChunk pyNameSample ''a.py'' (splitNl pyNameSample) pyNameMatch)
              = ''fetch_all''" by code_simp
  have e2: "name (jsChunk jsNameSample ''a.js'' Javascript (splitNl jsNameSample) jsNameMatch)
              = ''unknown''" by code_simp
  have e3: "group jsNameMatch 5 = Some ''unknown''" by code_simp
  note t = names_are_captured[where content = pyNameSample and path = "''a.py''"
      and lines = "splitNl pyNameSample"]
  note t' = names_are_captured[where content = jsNameSample and path = "''a.js''"
      and lang = Javascript and lines = "splitNl jsNameSample"]
  from t h1 have "\<exists>n. group pyNameMatch 2 = Some n \<and> isIdentifier n
          \<and> sublist n (m_text pyNameMatch)
          \<and> name (pythonChunk pyNameSample ''a.py'' (splitNl pyNameSample) pyNameMatch) = n"
    by blast
  moreover from t' h2 have "\<exists>n. (group jsNameMatch 3 = Some n
            \<or> group jsNameMatch 3 = None \<and> group jsNameMatch 5 = Some n)
          \<and> n \<noteq> [] \<and> list_all isWordChar n \<and> sublist n (m_text jsNameMatch)
          \<and> name (jsChunk jsNameSample ''a.js'' Javascript (splitNl jsNameSample) jsNameMatch) = n"
    by blast
  ultimately show ?thesis using h1 h2 e1 e2 e3 by blast
qed

text \<open>
  Claim C10, the counterexample to the claim as stated. In \<open>numberedSample\<close> the words
  \<open>class 1\<close> of the comment match the pattern: the first chunk is a class whose name is
  \<open>1\<close>, which is not an identifier.
\<close>

theorem names_are_captured_counterexample:
  "map (\<lambda>c. (chunkType c, name c, startLine c))
     (parseJavaScriptTypeScript numberedSample ''a.js'' Javascript)
     = [(Class, ''1'', 1), (Class, ''A'', 2)]
   \<and> \<not> isIdentifier ''1''
   \<and> \<not> isIdentifier (name (hd (parseJavaScriptTypeScript numberedSample ''a.js'' Javascript)))"
  by code_simp

end
